theory Spec2Isabelle
  imports Complex_Main "HOL-Library.Sublist" "HOL-Library.AList"
begin

section \<open>Strings\<close>

text \<open>
  A JavaScript string is a sequence of 16-bit code units. The cleaner and the matcher are
  embedded over \<^typ>\<open>string\<close>, whose characters are the 256 code units below \<open>0x100\<close>
  (ASCII and Latin-1). \<open>toLowerCase\<close> below is \<open>String.prototype.toLowerCase\<close> on such
  strings, where it maps one code unit to one code unit: \<open>A\<close> to \<open>Z\<close> and the Latin-1
  capitals \<open>0xC0\<close> to \<open>0xDE\<close>, without the sign \<open>0xD7\<close>, move up by 32. On other strings
  the function of the language can change the length (it maps the code unit \<open>0x130\<close> to
  the two code units \<open>0x69\<close>, \<open>0x307\<close>); the similarity scorer is therefore embedded
  over lists of any code units, with the lower-casing as a parameter. The white space of
  \<open>\s\<close> and of \<open>trim\<close> coincide below \<open>0x100\<close>: TAB, LF, VT, FF, CR, SPACE and NBSP.
\<close>

definition white_space :: "char list" where
  "white_space = [CHR 0x09, CHR 0x0A, CHR 0x0B, CHR 0x0C, CHR 0x0D, CHR '' '', CHR 0xA0]"

definition is_space :: "char \<Rightarrow> bool" where
  "is_space c = (c \<in> set white_space)"

definition toLowerCase_char :: "char \<Rightarrow> char" where
  "toLowerCase_char c =
     (let n = (of_char c :: nat) in
      if (65 \<le> n \<and> n \<le> 90) \<or> (192 \<le> n \<and> n \<le> 222 \<and> n \<noteq> 215)
      then char_of (n + 32) else c)"

definition toLowerCase :: "string \<Rightarrow> string" where
  "toLowerCase s = map toLowerCase_char s"

definition trim :: "string \<Rightarrow> string" where
  "trim s = rev (dropWhile is_space (rev (dropWhile is_space s)))"

text \<open>\<open>hay.includes(needle)\<close>: the needle occurs as a contiguous run of the haystack.\<close>

fun str_includes :: "string \<Rightarrow> string \<Rightarrow> bool" where
  "str_includes [] needle = (needle = [])"
| "str_includes (h # hay) needle = (prefix needle (h # hay) \<or> str_includes hay needle)"

text \<open>\<open>a\<close> is a case-insensitive substring of \<open>b\<close>.\<close>

definition ci_substring :: "string \<Rightarrow> string \<Rightarrow> bool" where
  "ci_substring a b = sublist (toLowerCase a) (toLowerCase b)"

text \<open>\<open>parts.join(' ')\<close>.\<close>

fun join_space :: "string list \<Rightarrow> string" where
  "join_space [] = []"
| "join_space [t] = t"
| "join_space (t # u # ts) = t @ CHR '' '' # join_space (u # ts)"

text \<open>
  \<open>s.split(/\s+/)\<close>: the pieces between maximal runs of white space. A run at the very
  start or end of \<open>s\<close> leaves an empty piece there, and the empty string splits into one
  empty piece. \<open>split_from cur s\<close> scans \<open>s\<close> with the piece \<open>cur\<close> read so far.
\<close>

function split_from :: "string \<Rightarrow> string \<Rightarrow> string list" where
  "split_from cur [] = [cur]"
| "split_from cur (c # s) =
     (if is_space c then cur # split_from [] (dropWhile is_space s)
      else split_from (cur @ [c]) s)"
  by pat_completeness auto
termination
  by (relation "measure (\<lambda>(cur, s). length s)")
     (auto simp: length_dropWhile_le le_imp_less_Suc)

definition split_ws :: "string \<Rightarrow> string list" where
  "split_ws s = split_from [] s"

section \<open>Regular expressions\<close>

text \<open>
  The patterns of the cleaner are regular: character classes, sequence, alternation and
  bounded or unbounded repetition. \<open>Chr cs\<close> is a class listing its characters, \<open>NChr cs\<close>
  a negated class. \<open>test_full r s\<close> is \<open>/^r$/.test(s)\<close>, decided by derivatives.
\<close>

datatype rx = Void | Eps | Chr "char list" | NChr "char list"
  | Alt rx rx | Cat rx rx | Star rx

fun nullable :: "rx \<Rightarrow> bool" where
  "nullable Void = False"
| "nullable Eps = True"
| "nullable (Chr cs) = False"
| "nullable (NChr cs) = False"
| "nullable (Alt r s) = (nullable r \<or> nullable s)"
| "nullable (Cat r s) = (nullable r \<and> nullable s)"
| "nullable (Star r) = True"

fun deriv :: "char \<Rightarrow> rx \<Rightarrow> rx" where
  "deriv c Void = Void"
| "deriv c Eps = Void"
| "deriv c (Chr cs) = (if c \<in> set cs then Eps else Void)"
| "deriv c (NChr cs) = (if c \<in> set cs then Void else Eps)"
| "deriv c (Alt r s) = Alt (deriv c r) (deriv c s)"
| "deriv c (Cat r s) =
     (if nullable r then Alt (Cat (deriv c r) s) (deriv c s) else Cat (deriv c r) s)"
| "deriv c (Star r) = Cat (deriv c r) (Star r)"

fun test_full :: "rx \<Rightarrow> string \<Rightarrow> bool" where
  "test_full r [] = nullable r"
| "test_full r (c # s) = test_full (deriv c r) s"

text \<open>The characters a non-empty match of a pattern can begin with.\<close>

fun firsts :: "rx \<Rightarrow> char \<Rightarrow> bool" where
  "firsts Void c = False"
| "firsts Eps c = False"
| "firsts (Chr cs) c = (c \<in> set cs)"
| "firsts (NChr cs) c = (c \<notin> set cs)"
| "firsts (Alt r s) c = (firsts r c \<or> firsts s c)"
| "firsts (Cat r s) c = (firsts r c \<or> (nullable r \<and> firsts s c))"
| "firsts (Star r) c = firsts r c"

text \<open>What a pattern means: the strings it matches as a whole.\<close>

inductive rx_match :: "rx \<Rightarrow> string \<Rightarrow> bool" where
  m_eps: "rx_match Eps []"
| m_chr: "c \<in> set cs \<Longrightarrow> rx_match (Chr cs) [c]"
| m_nchr: "c \<notin> set cs \<Longrightarrow> rx_match (NChr cs) [c]"
| m_altl: "rx_match r w \<Longrightarrow> rx_match (Alt r s) w"
| m_altr: "rx_match s w \<Longrightarrow> rx_match (Alt r s) w"
| m_cat: "rx_match r u \<Longrightarrow> rx_match s v \<Longrightarrow> rx_match (Cat r s) (u @ v)"
| m_star0: "rx_match (Star r) []"
| m_star: "rx_match r u \<Longrightarrow> rx_match (Star r) v \<Longrightarrow> rx_match (Star r) (u @ v)"

text \<open>The pieces the patterns are written with.\<close>

definition digit :: rx where "digit = Chr ''0123456789''"

definition hex :: rx where "hex = Chr ''0123456789abcdefABCDEF''"

definition alpha_chars :: "char list" where
  "alpha_chars = ''abcdefghijklmnopqrstuvwxyzABCDEFGHIJKLMNOPQRSTUVWXYZ''"

definition word_chars :: "char list" where
  "word_chars = alpha_chars @ ''0123456789_''"

text \<open>\<open>r?\<close>, \<open>r+\<close>, \<open>r{n}\<close> and \<open>r{n,m}\<close> (written with \<open>k = m - n\<close> optional copies).\<close>

definition opt :: "rx \<Rightarrow> rx" where "opt r = Alt r Eps"

definition plus :: "rx \<Rightarrow> rx" where "plus r = Cat r (Star r)"

fun rep :: "nat \<Rightarrow> rx \<Rightarrow> rx" where
  "rep 0 r = Eps"
| "rep (Suc n) r = Cat r (rep n r)"

fun rep_opt :: "nat \<Rightarrow> rx \<Rightarrow> rx" where
  "rep_opt 0 r = Eps"
| "rep_opt (Suc k) r = opt (Cat r (rep_opt k r))"

definition rep_range :: "nat \<Rightarrow> nat \<Rightarrow> rx \<Rightarrow> rx" where
  "rep_range n m r = Cat (rep n r) (rep_opt (m - n) r)"

text \<open>A literal string, and a literal under the flag \<open>i\<close>.\<close>

fun lit :: "string \<Rightarrow> rx" where
  "lit [] = Eps"
| "lit (c # s) = Cat (Chr [c]) (lit s)"

definition toUpperCase_char :: "char \<Rightarrow> char" where
  "toUpperCase_char c =
     (let n = (of_char c :: nat) in
      if (97 \<le> n \<and> n \<le> 122) \<or> (224 \<le> n \<and> n \<le> 254 \<and> n \<noteq> 247)
      then char_of (n - 32) else c)"

fun lit_i :: "string \<Rightarrow> rx" where
  "lit_i [] = Eps"
| "lit_i (c # s) = Cat (Chr [toLowerCase_char c, toUpperCase_char c]) (lit_i s)"

definition seq :: "rx list \<Rightarrow> rx" where
  "seq rs = foldr Cat rs Eps"

definition alts :: "rx list \<Rightarrow> rx" where
  "alts rs = foldr Alt rs Void"

text \<open>\<open>/r/.test(s)\<close> for a pattern without anchors: some run of \<open>s\<close> matches.\<close>

definition test_anywhere :: "rx \<Rightarrow> string \<Rightarrow> bool" where
  "test_anywhere r s = test_full (seq [Star (NChr []), r, Star (NChr [])]) s"

section \<open>The token cleaner\<close>

definition COMMON_WORDS :: "string list" where
  "COMMON_WORDS =
    [''the'', ''and'', ''for'', ''are'', ''but'', ''not'', ''you'', ''all'', ''can'', ''had'',
     ''her'', ''was'', ''one'', ''our'', ''out'', ''day'', ''get'', ''has'', ''him'', ''his'',
     ''how'', ''man'', ''new'', ''now'', ''old'', ''see'', ''two'', ''way'', ''who'', ''boy'',
     ''did'', ''its'', ''let'', ''put'', ''say'', ''she'', ''too'', ''use'',
     ''camera'', ''security'', ''surveillance'', ''system'', ''device'', ''equipment'',
     ''network'', ''wireless'', ''indoor'', ''outdoor'', ''dome'', ''bullet'', ''ptz'',
     ''fixed'', ''varifocal'', ''lens'', ''megapixel'', ''resolution'', ''night'', ''vision'',
     ''infrared'', ''audio'', ''video'', ''digital'', ''analog'', ''hybrid'', ''nvr'', ''dvr'',
     ''recorder'', ''channel'', ''port'', ''power'', ''supply'', ''adapter'', ''cable'',
     ''mount'', ''bracket'', ''housing'', ''enclosure'']"

text \<open>\<open>(?:25[0-5]|2[0-4][0-9]|[01]?[0-9][0-9]?)\<close>\<close>

definition octet :: rx where
  "octet = alts [seq [lit ''25'', Chr ''012345''],
                 seq [Chr ''2'', Chr ''01234'', digit],
                 seq [opt (Chr ''01''), digit, opt digit]]"

definition IP_ADDRESS_PATTERN :: rx where
  "IP_ADDRESS_PATTERN = seq [rep 3 (seq [octet, Chr ''.'']), octet]"

text \<open>\<open>/^(?:[0-9a-fA-F]{1,4}:){7}[0-9a-fA-F]{1,4}$|^::1$|^::$/\<close>\<close>

definition IPV6_PATTERN :: rx where
  "IPV6_PATTERN = alts [seq [rep 7 (seq [rep_range 1 4 hex, Chr '':'']), rep_range 1 4 hex],
                        lit ''::1'',
                        lit ''::'']"

text \<open>\<open>/^([0-9A-Fa-f]{2}[:-]){5}([0-9A-Fa-f]{2})$|^([0-9A-Fa-f]{4}\.){2}[0-9A-Fa-f]{4}$/\<close>\<close>

definition MAC_ADDRESS_PATTERN :: rx where
  "MAC_ADDRESS_PATTERN = alts [seq [rep 5 (seq [rep 2 hex, Chr '':-'']), rep 2 hex],
                               seq [rep 2 (seq [rep 4 hex, Chr ''.'']), rep 4 hex]]"

definition month :: rx where
  "month = alts (map lit_i [''Jan'', ''Feb'', ''Mar'', ''Apr'', ''May'', ''Jun'',
                            ''Jul'', ''Aug'', ''Sep'', ''Oct'', ''Nov'', ''Dec''])"

definition DATE_PATTERNS :: "rx list" where
  "DATE_PATTERNS =
    [seq [rep_range 1 2 digit, Chr ''/'', rep_range 1 2 digit, Chr ''/'', rep_range 2 4 digit],
     seq [rep_range 1 2 digit, Chr ''-'', rep_range 1 2 digit, Chr ''-'', rep_range 2 4 digit],
     seq [rep 4 digit, Chr ''-'', rep_range 1 2 digit, Chr ''-'', rep_range 1 2 digit],
     seq [rep_range 1 2 digit, Chr ''.'', rep_range 1 2 digit, Chr ''.'', rep_range 2 4 digit],
     seq [month, plus (Chr white_space), rep_range 1 2 digit, opt (Chr '',''),
          plus (Chr white_space), rep_range 2 4 digit]]"

text \<open>\<open>/^[a-zA-Z]+$/\<close>, \<open>/[a-zA-Z0-9]/\<close> and \<open>/^[^\w\s-_\.]+$/\<close>\<close>

definition ALPHABETIC :: rx where
  "ALPHABETIC = plus (Chr alpha_chars)"

definition ALPHANUMERIC :: rx where
  "ALPHANUMERIC = Chr (alpha_chars @ ''0123456789'')"

definition PUNCTUATION :: rx where
  "PUNCTUATION = plus (NChr (word_chars @ white_space @ ''-_.''))"

record CleaningResult =
  original :: string
  cleaned :: string
  removedElements :: "string list"

definition is_manufacturer :: "string list \<Rightarrow> string \<Rightarrow> bool" where
  "is_manufacturer manufacturerNames tokenLower =
     list_ex (\<lambda>manufacturer.
        toLowerCase manufacturer = tokenLower \<or>
        str_includes tokenLower (toLowerCase manufacturer) \<or>
        str_includes (toLowerCase manufacturer) tokenLower) manufacturerNames"

text \<open>
  The callback of \<open>tokens.filter\<close>: whether the token is kept, and \<open>removedElements\<close>
  after the callback's \<open>push\<close>.
\<close>

definition keep_token :: "string list \<Rightarrow> string list \<Rightarrow> string \<Rightarrow> bool \<times> string list" where
  "keep_token manufacturerNames removed token =
     (let trimmedToken = trim token in
      if trimmedToken = [] then (False, removed)
      else if test_full IP_ADDRESS_PATTERN trimmedToken \<or> test_full IPV6_PATTERN trimmedToken
        then (False, removed @ [''IP: '' @ trimmedToken])
      else if test_full MAC_ADDRESS_PATTERN trimmedToken
        then (False, removed @ [''MAC: '' @ trimmedToken])
      else if list_ex (\<lambda>pattern. test_full pattern trimmedToken) DATE_PATTERNS
        then (False, removed @ [''Date: '' @ trimmedToken])
      else let tokenLower = toLowerCase trimmedToken in
      if is_manufacturer manufacturerNames tokenLower
        then (False, removed @ [''Manufacturer: '' @ trimmedToken])
      else if test_full ALPHABETIC trimmedToken \<and> length trimmedToken > 2
              \<and> tokenLower \<in> set COMMON_WORDS
        then (False, removed @ [''Common word: '' @ trimmedToken])
      else if test_anywhere ALPHANUMERIC trimmedToken then (True, removed)
      else if test_full PUNCTUATION trimmedToken
        then (False, removed @ [''Punctuation: '' @ trimmedToken])
      else (True, removed))"

text \<open>\<open>tokens.filter(callback)\<close>, the callback run on each token in order.\<close>

fun filter_tokens :: "string list \<Rightarrow> string list \<Rightarrow> string list \<Rightarrow> string list \<times> string list" where
  "filter_tokens manufacturerNames removed [] = ([], removed)"
| "filter_tokens manufacturerNames removed (token # tokens) =
     (let (keep, removed1) = keep_token manufacturerNames removed token;
          (kept, removed2) = filter_tokens manufacturerNames removed1 tokens
      in (if keep then token # kept else kept, removed2))"

definition cleanModelData :: "string \<Rightarrow> string list \<Rightarrow> CleaningResult" where
  "cleanModelData input manufacturerNames =
     (if input = [] then \<lparr>original = [], cleaned = [], removedElements = []\<rparr>
      else
        let original = trim input;
            tokens = filter (\<lambda>token. length token > 0) (split_ws original);
            (cleanedTokens, removedElements) = filter_tokens manufacturerNames [] tokens
        in \<lparr>original = original,
            cleaned = trim (join_space cleanedTokens),
            removedElements = removedElements\<rparr>)"

definition preprocessModelForMatching :: "string \<Rightarrow> string list \<Rightarrow> string" where
  "preprocessModelForMatching model manufacturerNames =
     cleaned (cleanModelData model manufacturerNames)"

section \<open>The cleaner in the words of its specification\<close>

text \<open>The tokens of a string: the pieces of the trimmed string between runs of white space.\<close>

definition tokens_of :: "string \<Rightarrow> string list" where
  "tokens_of s = filter (\<lambda>token. length token > 0) (split_ws (trim s))"

definition ws_free :: "string \<Rightarrow> bool" where
  "ws_free s = list_all (\<lambda>c. \<not> is_space c) s"

text \<open>
  A labelling gives each token \<open>None\<close>, kept, or \<open>Some reason\<close>, removed for that reason.
  The kept tokens and the entries \<open><reason>: <token>\<close> of the removed ones, both in the
  order of the tokens:
\<close>

definition reasons :: "string list" where
  "reasons = [''IP'', ''MAC'', ''Date'', ''Manufacturer'', ''Common word'', ''Punctuation'']"

definition valid_label :: "string option \<Rightarrow> bool" where
  "valid_label label = (label = None \<or> label \<in> Some ` set reasons)"

definition kept_tokens :: "string list \<Rightarrow> string option list \<Rightarrow> string list" where
  "kept_tokens tokens labels =
     map fst (filter (\<lambda>(token, label). label = None) (zip tokens labels))"

definition removed_entries :: "string list \<Rightarrow> string option list \<Rightarrow> string list" where
  "removed_entries tokens labels =
     concat (map (\<lambda>(token, label).
                    case label of None \<Rightarrow> [] | Some reason \<Rightarrow> [reason @ '': '' @ token])
                 (zip tokens labels))"

text \<open>The kinds of noise, token by token.\<close>

definition is_ip_token :: "string \<Rightarrow> bool" where
  "is_ip_token t = (test_full IP_ADDRESS_PATTERN t \<or> test_full IPV6_PATTERN t)"

definition is_mac_token :: "string \<Rightarrow> bool" where
  "is_mac_token t = test_full MAC_ADDRESS_PATTERN t"

definition is_date_token :: "string \<Rightarrow> bool" where
  "is_date_token t = list_ex (\<lambda>pattern. test_full pattern t) DATE_PATTERNS"

text \<open>
  An octet in decimal: one to three digits with a value of at most 255. A group of an
  IPv6 address: one to four hexadecimal digits.
\<close>

definition digit_value :: "char \<Rightarrow> nat" where
  "digit_value c = of_char c - 48"

definition decimal :: "string \<Rightarrow> nat" where
  "decimal s = foldl (\<lambda>n c. 10 * n + digit_value c) 0 s"

definition is_octet :: "string \<Rightarrow> bool" where
  "is_octet s = (s \<noteq> [] \<and> length s \<le> 3 \<and> list_all (\<lambda>c. c \<in> set ''0123456789'') s \<and>
                 decimal s \<le> 255)"

definition is_group :: "string \<Rightarrow> bool" where
  "is_group s = (s \<noteq> [] \<and> length s \<le> 4 \<and>
                 list_all (\<lambda>c. c \<in> set ''0123456789abcdefABCDEF'') s)"

text \<open>Four octets joined by dots; groups joined by colons.\<close>

definition dotted_quad :: "string \<Rightarrow> string \<Rightarrow> string \<Rightarrow> string \<Rightarrow> string" where
  "dotted_quad a b c d = a @ ''.'' @ b @ ''.'' @ c @ ''.'' @ d"

fun colon_groups :: "string list \<Rightarrow> string" where
  "colon_groups [] = []"
| "colon_groups [g] = g"
| "colon_groups (g # h # gs) = g @ '':'' @ colon_groups (h # gs)"

text \<open>The token is, ignoring case, a vocabulary entry or a substring of one.\<close>

definition within_vocabulary :: "string list \<Rightarrow> string \<Rightarrow> bool" where
  "within_vocabulary vocabulary t =
     list_ex (\<lambda>entry. toLowerCase t = toLowerCase entry \<or> ci_substring t entry) vocabulary"

text \<open>Some vocabulary entry is, ignoring case, a substring of the token.\<close>

definition contains_vocabulary :: "string list \<Rightarrow> string \<Rightarrow> bool" where
  "contains_vocabulary vocabulary t = list_ex (\<lambda>entry. ci_substring entry t) vocabulary"


text \<open>
  A letter: \<open>a\<close> to \<open>z\<close>, \<open>A\<close> to \<open>Z\<close>, and the letters of Latin-1 (\<open>0xAA\<close>, \<open>0xB5\<close>, \<open>0xBA\<close>,
  and \<open>0xC0\<close> to \<open>0xFF\<close> without the signs \<open>0xD7\<close> and \<open>0xF7\<close>). The digits below
  \<open>0x100\<close> are \<open>0\<close> to \<open>9\<close>. Pure punctuation: no letter and no digit.
\<close>

definition is_letter :: "char \<Rightarrow> bool" where
  "is_letter c =
     (let n = (of_char c :: nat) in
      c \<in> set alpha_chars \<or> n = 170 \<or> n = 181 \<or> n = 186 \<or> (192 \<le> n \<and> n \<noteq> 215 \<and> n \<noteq> 247))"

definition pure_punctuation :: "string \<Rightarrow> bool" where
  "pure_punctuation t = list_all (\<lambda>c. \<not> is_letter c \<and> c \<notin> set ''0123456789'') t"

text \<open>
  The token holds a letter of \<open>a\<close> to \<open>z\<close> or \<open>A\<close> to \<open>Z\<close>, or a digit \<open>0\<close> to \<open>9\<close>: what the
  pattern \<open>/[a-zA-Z0-9]/\<close> looks for.
\<close>

definition has_ascii_alnum :: "string \<Rightarrow> bool" where
  "has_ascii_alnum t = list_ex (\<lambda>c. c \<in> set (alpha_chars @ ''0123456789'')) t"



section \<open>The similarity scorer\<close>

text \<open>
  \<open>xs[i] = v\<close> on a JavaScript array overwrites below the length and appends at the
  length. Every write of \<open>levenshteinDistance\<close> lands at an index that is at most the
  length (\<open>init_rows_eq\<close>, \<open>init_cols_eq\<close> and \<open>fill_cell_step\<close> below follow the
  lengths), so no array ever has a hole.
\<close>

definition assign :: "'a list \<Rightarrow> nat \<Rightarrow> 'a \<Rightarrow> 'a list" where
  "assign xs i v = (if i < length xs then xs[i := v] else xs @ [v])"

type_synonym matrix = "nat list list"

text \<open>\<open>for (let i = 0; i <= str2.length; i++) matrix[i] = [i]\<close>\<close>

definition init_rows :: "'a list \<Rightarrow> matrix" where
  "init_rows str2 = foldl (\<lambda>matrix i. assign matrix i [i]) [] [0..<Suc (length str2)]"

text \<open>\<open>for (let j = 0; j <= str1.length; j++) matrix[0][j] = j\<close>\<close>

definition init_cols :: "'a list \<Rightarrow> matrix \<Rightarrow> matrix" where
  "init_cols str1 matrix0 =
     foldl (\<lambda>matrix j. matrix[0 := assign (matrix ! 0) j j]) matrix0 [0..<Suc (length str1)]"

text \<open>The body of the inner loop, at row \<open>i\<close> and column \<open>j\<close>.\<close>

definition fill_cell :: "'a list \<Rightarrow> 'a list \<Rightarrow> nat \<Rightarrow> matrix \<Rightarrow> nat \<Rightarrow> matrix" where
  "fill_cell str1 str2 i matrix j =
     matrix[i := assign (matrix ! i) j
       (if str2 ! (i - 1) = str1 ! (j - 1) then matrix ! (i - 1) ! (j - 1)
        else min (matrix ! (i - 1) ! (j - 1) + 1)
                 (min (matrix ! i ! (j - 1) + 1) (matrix ! (i - 1) ! j + 1)))]"

text \<open>\<open>for (let j = 1; j <= str1.length; j++)\<close>, inside \<open>for (let i = 1; i <= str2.length; i++)\<close>\<close>

definition fill_row :: "'a list \<Rightarrow> 'a list \<Rightarrow> matrix \<Rightarrow> nat \<Rightarrow> matrix" where
  "fill_row str1 str2 matrix i = foldl (fill_cell str1 str2 i) matrix [1..<Suc (length str1)]"

definition fill_matrix :: "'a list \<Rightarrow> 'a list \<Rightarrow> matrix" where
  "fill_matrix str1 str2 =
     foldl (fill_row str1 str2) (init_cols str1 (init_rows str2)) [1..<Suc (length str2)]"

definition levenshteinDistance :: "'a list \<Rightarrow> 'a list \<Rightarrow> nat" where
  "levenshteinDistance str1 str2 = fill_matrix str1 str2 ! length str2 ! length str1"

text \<open>
  The scorer works on strings of any code units: the loops only compare them. Its one
  call into the language is \<open>toLowerCase\<close>, the parameter \<open>lower\<close> of
  \<open>calculateSimilarity_with\<close>;
  \<open>String.prototype.toLowerCase\<close> can lengthen a string (\<open>U+0130\<close> becomes the two code
  units \<open>U+0069 U+0307\<close>). \<open>calculateSimilarity\<close> is the scorer on the strings of this
  embedding, where \<open>toLowerCase\<close> keeps the length.

  A JavaScript number is modelled by a rational here: the quotient of two lengths,
  compared with \<open>0.5\<close>, \<open>0.6\<close> and other such quotients.
\<close>

definition calculateSimilarity_with :: "('a list \<Rightarrow> 'a list) \<Rightarrow> 'a list \<Rightarrow> 'a list \<Rightarrow> rat" where
  "calculateSimilarity_with lower str1 str2 =
     (let longer = (if length str1 > length str2 then str1 else str2);
          shorter = (if length str1 > length str2 then str2 else str1)
      in if length longer = 0 then 1
         else let editDistance = levenshteinDistance (lower longer) (lower shorter)
              in (of_nat (length longer) - of_nat editDistance) / of_nat (length longer))"

definition calculateSimilarity :: "string \<Rightarrow> string \<Rightarrow> rat" where
  "calculateSimilarity str1 str2 = calculateSimilarity_with toLowerCase str1 str2"

text \<open>
  The distance the scorer is specified by: the least number of insertions, deletions
  and substitutions of one character that turn one string into the other.
\<close>

fun edit_distance :: "'a list \<Rightarrow> 'a list \<Rightarrow> nat" where
  "edit_distance [] ys = length ys"
| "edit_distance (x # xs) [] = Suc (length xs)"
| "edit_distance (x # xs) (y # ys) =
     min (edit_distance xs ys + (if x = y then 0 else 1))
         (min (edit_distance xs (y # ys) + 1) (edit_distance (x # xs) ys + 1))"

text \<open>\<open>edits n xs ys\<close>: some \<open>n\<close> unit-cost edits turn \<open>xs\<close> into \<open>ys\<close>.\<close>

inductive edits :: "nat \<Rightarrow> 'a list \<Rightarrow> 'a list \<Rightarrow> bool" where
  e_nil: "edits 0 [] []"
| e_keep: "edits n xs ys \<Longrightarrow> edits n (x # xs) (x # ys)"
| e_subst: "edits n xs ys \<Longrightarrow> edits (Suc n) (x # xs) (y # ys)"
| e_delete: "edits n xs ys \<Longrightarrow> edits (Suc n) (x # xs) ys"
| e_insert: "edits n xs ys \<Longrightarrow> edits (Suc n) xs (y # ys)"

text \<open>
  The table the loops build: entry \<open>j\<close> of row \<open>i\<close> is the distance between the first \<open>i\<close>
  characters of \<open>str2\<close> and the first \<open>j\<close> characters of \<open>str1\<close>. \<open>stage str1 str2 i\<close> is
  the matrix once the rows up to \<open>i\<close> are filled and the later rows still hold their
  first entry only.
\<close>

definition dist_row :: "'a list \<Rightarrow> 'a list \<Rightarrow> nat \<Rightarrow> nat \<Rightarrow> nat list" where
  "dist_row str1 str2 i k = map (\<lambda>j. edit_distance (take i str2) (take j str1)) [0..<k]"

definition stage :: "'a list \<Rightarrow> 'a list \<Rightarrow> nat \<Rightarrow> matrix" where
  "stage str1 str2 i =
     map (\<lambda>r. if r \<le> i then dist_row str1 str2 r (Suc (length str1)) else [r])
       [0..<Suc (length str2)]"

section \<open>The matcher\<close>

record VerkadaModel =
  manufacturer :: string
  modelName :: string
  minimumFirmware :: string
  "notes" :: string

datatype CompatibilityType = RTSP | ONVIF_S

datatype MatchType = exact | potential | none

record MatchInfo =
  matchType :: MatchType
  matchedWith :: "string option"
  similarity :: "rat option"
  verkadaDetails :: "VerkadaModel option"
  compatibilityType :: "CompatibilityType option"

definition getCompatibilityType :: "VerkadaModel option \<Rightarrow> CompatibilityType" where
  "getCompatibilityType verkadaModel =
     (case verkadaModel of
        None \<Rightarrow> ONVIF_S
      | Some vm \<Rightarrow>
          if notes vm = [] then ONVIF_S
          else if str_includes (toLowerCase (notes vm)) ''rtsp support only'' then RTSP
          else ONVIF_S)"

definition no_match :: MatchInfo where
  "no_match = \<lparr>matchType = none, matchedWith = None, similarity = None,
               verkadaDetails = None, compatibilityType = None\<rparr>"

text \<open>The first loop over the catalog; \<open>Some\<close> is its early \<open>return\<close>.\<close>

fun exact_pass :: "VerkadaModel list \<Rightarrow> string list \<Rightarrow> string \<Rightarrow> MatchInfo option" where
  "exact_pass [] manufacturerNames modelLower = None"
| "exact_pass (verkadaModel # rest) manufacturerNames modelLower =
     (let cleanedVerkadaModel =
            preprocessModelForMatching (modelName verkadaModel) manufacturerNames
      in if toLowerCase cleanedVerkadaModel = modelLower
         then Some \<lparr>matchType = exact,
                     matchedWith = Some (modelName verkadaModel),
                     similarity = Some 1,
                     verkadaDetails = Some verkadaModel,
                     compatibilityType = Some (getCompatibilityType (Some verkadaModel))\<rparr>
         else exact_pass rest manufacturerNames modelLower)"

text \<open>The variables the second loop tracks.\<close>

record Best =
  bestMatch :: string
  bestSimilarity :: rat
  bestOriginalModel :: string
  bestVerkadaModel :: "VerkadaModel option"

definition best_init :: Best where
  "best_init = \<lparr>bestMatch = [], bestSimilarity = 0, bestOriginalModel = [],
                 bestVerkadaModel = None\<rparr>"

definition potential_step :: "string list \<Rightarrow> string \<Rightarrow> Best \<Rightarrow> VerkadaModel \<Rightarrow> Best" where
  "potential_step manufacturerNames modelLower best verkadaModel =
     (let cleanedVerkadaModel =
            preprocessModelForMatching (modelName verkadaModel) manufacturerNames;
          sim = calculateSimilarity modelLower (toLowerCase cleanedVerkadaModel);
          isSubset = (str_includes modelLower (toLowerCase cleanedVerkadaModel) \<or>
                      str_includes (toLowerCase cleanedVerkadaModel) modelLower)
      in if sim > bestSimilarity best \<or> (isSubset \<and> sim > 5 / 10)
         then \<lparr>bestMatch = cleanedVerkadaModel, bestSimilarity = sim,
               bestOriginalModel = modelName verkadaModel,
               bestVerkadaModel = Some verkadaModel\<rparr>
         else best)"

fun potential_pass :: "string list \<Rightarrow> string \<Rightarrow> Best \<Rightarrow> VerkadaModel list \<Rightarrow> Best" where
  "potential_pass manufacturerNames modelLower best [] = best"
| "potential_pass manufacturerNames modelLower best (verkadaModel # rest) =
     potential_pass manufacturerNames modelLower
       (potential_step manufacturerNames modelLower best verkadaModel) rest"

text \<open>\<open>findBestMatch\<close>, with the catalog \<open>verkadaModels\<close> of the enclosing component.\<close>

definition findBestMatch :: "VerkadaModel list \<Rightarrow> string \<Rightarrow> string list \<Rightarrow> MatchInfo" where
  "findBestMatch verkadaModels cleanedModel manufacturerNames =
     (if cleanedModel = [] \<or> trim cleanedModel = [] then no_match
      else
        let modelLower = trim (toLowerCase cleanedModel) in
        case exact_pass verkadaModels manufacturerNames modelLower of
          Some found \<Rightarrow> found
        | None \<Rightarrow>
            let best = potential_pass manufacturerNames modelLower best_init verkadaModels in
            if bestSimilarity best > 6 / 10
            then \<lparr>matchType = potential,
                  matchedWith = Some (bestOriginalModel best),
                  similarity = Some (bestSimilarity best),
                  verkadaDetails = bestVerkadaModel best,
                  compatibilityType = Some (getCompatibilityType (bestVerkadaModel best))\<rparr>
            else no_match)"

section \<open>The aggregator\<close>

text \<open>\<open>row[i]\<close>: \<open>None\<close> is \<open>undefined\<close>, at \<open>-1\<close> and past the end of the row.\<close>

definition cell :: "string list \<Rightarrow> int \<Rightarrow> string option" where
  "cell row i = (if 0 \<le> i \<and> i < int (length row) then Some (row ! nat i) else None)"

text \<open>\<open>headers.indexOf(name)\<close>, and \<open>-1\<close> for a name that is \<open>null\<close>.\<close>

fun index_from :: "int \<Rightarrow> string list \<Rightarrow> string \<Rightarrow> int" where
  "index_from k [] name = -1"
| "index_from k (h # hs) name = (if h = name then k else index_from (k + 1) hs name)"

definition indexOf :: "string list \<Rightarrow> string option \<Rightarrow> int" where
  "indexOf headers name = (case name of None \<Rightarrow> -1 | Some n \<Rightarrow> index_from 0 headers n)"

text \<open>
  A JavaScript number in the aggregator. A finite double is the rational it denotes,
  \<open>Finite 0\<close> for both zeros; besides there are the two infinities and \<open>NaN\<close>.
\<close>

datatype number = Finite rat | PosInfinity | NegInfinity | NaN

text \<open>
  The rounding of a real to a double, to the nearest one and to the even one of two
  nearest. The doubles of one binade are the multiples \<open>m * 2 ^ e\<close> with \<open>m\<close> below
  \<open>2 ^ 53\<close>; \<open>e\<close> runs from \<open>-1074\<close>, the subnormal numbers and the first binade, to
  \<open>971\<close>, where a round-up to \<open>2 ^ 1024\<close> overflows to an infinity.
\<close>

definition round_half_even :: "rat \<Rightarrow> int" where
  "round_half_even q =
     (let f = \<lfloor>q\<rfloor>; r = q - of_int f
      in if r < 1 / 2 then f else if 1 / 2 < r then f + 1 else if even f then f else f + 1)"

definition round_double :: "rat \<Rightarrow> number" where
  "round_double q =
     (case find (\<lambda>e. \<bar>q\<bar> < 2 powi (e + 53)) [-1074..971] of
        None \<Rightarrow> if 0 < q then PosInfinity else NegInfinity
      | Some e \<Rightarrow>
          let m = round_half_even (\<bar>q\<bar> / 2 powi e)
          in if e = 971 \<and> m = 2 ^ 53 then (if 0 < q then PosInfinity else NegInfinity)
             else Finite (sgn q * of_int m * 2 powi e))"

text \<open>\<open>x + y\<close>: the exact sum of two finite doubles, rounded to a double.\<close>

fun plus_number :: "number \<Rightarrow> number \<Rightarrow> number" where
  "plus_number (Finite a) (Finite b) = round_double (a + b)"
| "plus_number NaN y = NaN"
| "plus_number x NaN = NaN"
| "plus_number PosInfinity NegInfinity = NaN"
| "plus_number NegInfinity PosInfinity = NaN"
| "plus_number PosInfinity y = PosInfinity"
| "plus_number x PosInfinity = PosInfinity"
| "plus_number NegInfinity y = NegInfinity"
| "plus_number x NegInfinity = NegInfinity"

text \<open>\<open>x || 0\<close> on a number that may be \<open>undefined\<close> (\<open>None\<close>): 0 for \<open>undefined\<close>, \<open>NaN\<close> and 0.\<close>

definition or_zero :: "number option \<Rightarrow> number" where
  "or_zero x = (case x of None \<Rightarrow> Finite 0 | Some NaN \<Rightarrow> Finite 0 | Some v \<Rightarrow> v)"

text \<open>
  The body of \<open>data.rows.forEach\<close>. The \<open>Map\<close> is a list of entries in insertion order.
  \<open>parseFloat\<close> is the language's own and a parameter here; of \<open>undefined\<close>, the cell of a
  row that is too short, it is \<open>NaN\<close>.
\<close>

definition aggregate_row ::
  "(string \<Rightarrow> number) \<Rightarrow> int \<Rightarrow> int \<Rightarrow> (string \<times> number) list
     \<Rightarrow> string list \<Rightarrow> (string \<times> number) list" where
  "aggregate_row parseFloat modelColumnIndex countColumnIndex aggregated row =
     (case cell row modelColumnIndex of
        None \<Rightarrow> aggregated
      | Some model \<Rightarrow>
          if model = [] then aggregated
          else if countColumnIndex \<ge> 0 then
            let countValue =
                  or_zero (Some (case cell row countColumnIndex of
                                   None \<Rightarrow> NaN | Some c \<Rightarrow> parseFloat c))
            in AList.update model
                 (plus_number (or_zero (map_of aggregated model)) countValue) aggregated
          else AList.update model
                 (plus_number (or_zero (map_of aggregated model)) (Finite 1)) aggregated)"

record ColumnSelection =
  modelColumn :: "string option"
  countColumn :: "string option"

text \<open>
  The aggregation of \<open>results\<close>: the two column indices, and \<open>forEach\<close> over the rows from
  the empty \<open>Map\<close>. A count column that is \<open>null\<close> or the empty string is not looked up.
\<close>

definition aggregatedData ::
  "(string \<Rightarrow> number) \<Rightarrow> string list \<Rightarrow> string list list
     \<Rightarrow> ColumnSelection \<Rightarrow> (string \<times> number) list" where
  "aggregatedData parseFloat headers rows selection =
     (let modelColumnIndex = indexOf headers (modelColumn selection);
          countColumnIndex =
            (if countColumn selection \<noteq> None \<and> countColumn selection \<noteq> Some []
             then indexOf headers (countColumn selection) else -1)
      in foldl (aggregate_row parseFloat modelColumnIndex countColumnIndex) [] rows)"

text \<open>
  The rows with a non-empty model cell; whether a count column is selected, one of the
  headers; the parsed count cell of a row, 0 when it is missing or unparseable.
\<close>

definition has_model :: "int \<Rightarrow> string list \<Rightarrow> bool" where
  "has_model modelColumnIndex row =
     (case cell row modelColumnIndex of None \<Rightarrow> False | Some model \<Rightarrow> model \<noteq> [])"

definition counted_rows :: "string list \<Rightarrow> ColumnSelection \<Rightarrow> string list list \<Rightarrow> string list list" where
  "counted_rows headers selection rows =
     filter (has_model (indexOf headers (modelColumn selection))) rows"

definition count_selected :: "string list \<Rightarrow> ColumnSelection \<Rightarrow> bool" where
  "count_selected headers selection =
     (case countColumn selection of None \<Rightarrow> False | Some name \<Rightarrow> name \<noteq> [] \<and> name \<in> set headers)"

definition parsed_count ::
  "(string \<Rightarrow> number) \<Rightarrow> string list \<Rightarrow> ColumnSelection \<Rightarrow> string list \<Rightarrow> number" where
  "parsed_count parseFloat headers selection row =
     or_zero (Some (case cell row (indexOf headers (countColumn selection)) of
                      None \<Rightarrow> NaN | Some c \<Rightarrow> parseFloat c))"

text \<open>A number that is an integer, and the integer it is.\<close>

definition integral :: "number \<Rightarrow> bool" where
  "integral x = (case x of Finite q \<Rightarrow> of_int \<lfloor>q\<rfloor> = q | _ \<Rightarrow> False)"

definition int_of :: "number \<Rightarrow> int" where
  "int_of x = (case x of Finite q \<Rightarrow> \<lfloor>q\<rfloor> | _ \<Rightarrow> 0)"

text \<open>
  What a counted row adds to its label: its parsed count cell when the count column has
  an index, otherwise 1.
\<close>

definition increment :: "(string \<Rightarrow> number) \<Rightarrow> int \<Rightarrow> string list \<Rightarrow> number" where
  "increment parseFloat countColumnIndex row =
     (if countColumnIndex \<ge> 0
      then or_zero (Some (case cell row countColumnIndex of
                            None \<Rightarrow> NaN | Some c \<Rightarrow> parseFloat c))
      else Finite 1)"

text \<open>A \<open>Map\<close> of integer counts as the \<open>Map\<close> of numbers it stands for.\<close>

definition lift :: "(string \<times> int) list \<Rightarrow> (string \<times> number) list" where
  "lift al = map (\<lambda>(label, k). (label, Finite (of_int k))) al"

definition count_of :: "int option \<Rightarrow> int" where
  "count_of x = (case x of None \<Rightarrow> 0 | Some k \<Rightarrow> k)"

section \<open>The potential pass in the words of its specification\<close>

text \<open>
  An entry replaces the tracked best; the scan of the catalog, in order, from the initial
  candidate (similarity 0, no entry). These follow the specification; the theorems compare
  them with the code.
\<close>

definition entry_similarity :: "string list \<Rightarrow> string \<Rightarrow> VerkadaModel \<Rightarrow> rat" where
  "entry_similarity vocabulary input entry =
     calculateSimilarity input (cleaned (cleanModelData (modelName entry) vocabulary))"



section \<open>The matcher on an empty catalog\<close>

text \<open>
  C9. With an empty catalog the matcher returns \<open>matchType = none\<close>, with
  \<open>matchedWith\<close>, \<open>similarity\<close>, \<open>verkadaDetails\<close> and \<open>compatibilityType\<close> undefined,
  for every label and every vocabulary. The function is total: it has no failing branch.
\<close>

theorem empty_catalog_none:
  "findBestMatch [] cleanedModel manufacturerNames =
     \<lparr>matchType = none, matchedWith = None, similarity = None,
      verkadaDetails = None, compatibilityType = None\<rparr>"
  by (simp add: findBestMatch_def no_match_def best_init_def)

theorem empty_catalog_none_witness:
  "findBestMatch [] ''P3245-LVE'' [''Axis''] =
     \<lparr>matchType = none, matchedWith = None, similarity = None,
      verkadaDetails = None, compatibilityType = None\<rparr>"
  using empty_catalog_none [of "''P3245-LVE''" "[''Axis'']"] by simp

section \<open>Facts about strings\<close>

lemma char_eq_nat: "c = d \<longleftrightarrow> (of_char c :: nat) = of_char d"
  by simp

lemma space_codes: "is_space c \<longleftrightarrow> (of_char c :: nat) \<in> {9, 10, 11, 12, 13, 32, 160}"
  unfolding is_space_def white_space_def
  by (simp only: list.set insert_iff empty_iff char_eq_nat [of c]) simp



lemma length_lower: "length (toLowerCase s) = length s"
  by (simp add: toLowerCase_def)

lemma is_space_lower: "is_space (toLowerCase_char c) = is_space c"
  unfolding space_codes toLowerCase_char_def Let_def
  by (auto simp: mod_less)

lemma trim_lower: "trim (toLowerCase s) = toLowerCase (trim s)"
  unfolding trim_def toLowerCase_def
  by (simp add: dropWhile_map rev_map comp_def is_space_lower)

lemma trim_fixed_iff:
  "trim s = s \<longleftrightarrow> (s = [] \<or> (\<not> is_space (hd s) \<and> \<not> is_space (last s)))"
  by (metis (no_types, lifting) ext dropWhile_eq_self_iff dropWhile_last
    hd_dropWhile hd_rev last_in_set rev_is_Nil_conv rev_swap trim_def)



lemma trim_Nil: "trim [] = []"
  by (simp add: trim_def)

lemma includes_sublist: "str_includes hay needle \<longleftrightarrow> sublist needle hay"
  by (induction hay) (auto simp: sublist_Cons_right)






lemma exact_pass_none:
  "\<forall>entry\<in>set catalog. toLowerCase (preprocessModelForMatching (modelName entry) names) \<noteq> modelLower
   \<Longrightarrow> exact_pass catalog names modelLower = None"
  by (induction catalog) (auto simp: Let_def)

section \<open>Exact matches\<close>



section \<open>The potential pass\<close>

lemma trimmed_lower: "trim s = s \<Longrightarrow> trim (toLowerCase s) = toLowerCase s"
  by (simp add: trim_lower)




lemma find_no_exact:
  assumes "cleanedModel \<noteq> []" and "trim cleanedModel = cleanedModel"
    and "\<forall>entry\<in>set catalog.
           toLowerCase (cleaned (cleanModelData (modelName entry) names)) \<noteq> toLowerCase cleanedModel"
  shows "findBestMatch catalog cleanedModel names =
          (let best = potential_pass names (trim (toLowerCase cleanedModel)) best_init catalog in
            if bestSimilarity best > 6 / 10
            then \<lparr>matchType = potential,
                  matchedWith = Some (bestOriginalModel best),
                  similarity = Some (bestSimilarity best),
                  verkadaDetails = bestVerkadaModel best,
                  compatibilityType = Some (getCompatibilityType (bestVerkadaModel best))\<rparr>
            else no_match)"
proof -
  have "exact_pass catalog names (trim (toLowerCase cleanedModel)) = None"
    using assms(3) unfolding trimmed_lower [OF assms(2)]
    by (intro exact_pass_none) (simp add: preprocessModelForMatching_def)
  then show ?thesis using assms(1,2) by (simp add: findBestMatch_def)
qed



section \<open>The acceptance threshold\<close>

text \<open>
  For a non-empty cleaned input with no exact match, the matcher returns \<open>potential\<close> if
  and only if \<open>bestSimilarity\<close> after the second loop is strictly greater than 0.6; at
  exactly 0.6 it returns \<open>none\<close>.
\<close>

lemma threshold_iff:
  assumes "cleanedModel \<noteq> []" and "trim cleanedModel = cleanedModel"
    and "\<forall>entry\<in>set catalog.
           toLowerCase (cleaned (cleanModelData (modelName entry) names)) \<noteq> toLowerCase cleanedModel"
  shows "(matchType (findBestMatch catalog cleanedModel names) = potential \<longleftrightarrow>
            bestSimilarity (potential_pass names (trim (toLowerCase cleanedModel)) best_init catalog)
              > 6 / 10) \<and>
         (bestSimilarity (potential_pass names (trim (toLowerCase cleanedModel)) best_init catalog)
              = 6 / 10 \<longrightarrow>
            matchType (findBestMatch catalog cleanedModel names) = none)"
  unfolding find_no_exact [OF assms]
  by (simp add: Let_def no_match_def)

text \<open>
  C3. Absent an exact match, an entry that reaches a similarity above the threshold is to
  make the result \<open>potential\<close>; the comment over the final test says so, and names a
  significant substring match as a second ground. Here neither does: \<open>P3245-LVX\<close> scores
  8/9 against the input \<open>P3245-LVE\<close> and is tracked; the later entry \<open>P3245\<close> is contained
  in the input and scores 5/9, above 0.5, so the second clause of the loop's test
  replaces the tracked best by it; the scan ends with \<open>bestSimilarity\<close> 5/9, below the
  threshold, and the matcher returns \<open>none\<close>.
\<close>

theorem entry_above_threshold_none:
  "toLowerCase (cleaned (cleanModelData ''P3245-LVX'' [''Axis''])) \<noteq> toLowerCase ''P3245-LVE'' \<and>
   toLowerCase (cleaned (cleanModelData ''P3245'' [''Axis''])) \<noteq> toLowerCase ''P3245-LVE'' \<and>
   entry_similarity [''Axis''] ''P3245-LVE''
     \<lparr>manufacturer = ''Axis'', modelName = ''P3245-LVX'', minimumFirmware = [], notes = []\<rparr>
     = 8 / 9 \<and>
   ci_substring (cleaned (cleanModelData ''P3245'' [''Axis''])) ''P3245-LVE'' \<and>
   entry_similarity [''Axis''] ''P3245-LVE''
     \<lparr>manufacturer = ''Axis'', modelName = ''P3245'', minimumFirmware = [], notes = []\<rparr>
     = 5 / 9 \<and>
   bestSimilarity (potential_pass [''Axis''] (trim (toLowerCase ''P3245-LVE'')) best_init
     [\<lparr>manufacturer = ''Axis'', modelName = ''P3245-LVX'', minimumFirmware = [], notes = []\<rparr>,
      \<lparr>manufacturer = ''Axis'', modelName = ''P3245'', minimumFirmware = [], notes = []\<rparr>])
     = 5 / 9 \<and>
   findBestMatch
     [\<lparr>manufacturer = ''Axis'', modelName = ''P3245-LVX'', minimumFirmware = [], notes = []\<rparr>,
      \<lparr>manufacturer = ''Axis'', modelName = ''P3245'', minimumFirmware = [], notes = []\<rparr>]
     ''P3245-LVE'' [''Axis''] =
   \<lparr>matchType = none, matchedWith = None, similarity = None,
    verkadaDetails = None, compatibilityType = None\<rparr>"
  by code_simp

section \<open>The edit distance\<close>

text \<open>
  \<open>edit_distance\<close> is the least number of edits: some script of that cost exists, and no
  script is cheaper. It does not change when both strings are reversed, which gives its
  recurrence on last characters, the one the matrix is filled by.
\<close>

lemma ed_Nil2: "edit_distance xs [] = length xs"
  by (cases xs) simp_all

lemma ed_sym: "edit_distance xs ys = edit_distance ys xs"
  by (induction xs ys rule: edit_distance.induct) (auto simp: ed_Nil2 min.commute min.left_commute)

lemma ed_le_max: "edit_distance xs ys \<le> max (length xs) (length ys)"
  by (induction xs ys rule: edit_distance.induct) (auto simp: min_def max_def)

lemma ed_delete_le: "edit_distance (x # xs) ys \<le> Suc (edit_distance xs ys)"
  by (cases ys) (simp_all add: ed_Nil2 min.coboundedI2)

lemma ed_insert_le: "edit_distance xs (y # ys) \<le> Suc (edit_distance xs ys)"
  by (cases xs) (simp_all add: min.coboundedI2)

lemma edits_Nil_left: "edits (length ys) [] ys"
  by (induction ys) (auto intro: edits.intros)

lemma edits_Nil_right: "edits (length xs) xs []"
  by (induction xs) (auto intro: edits.intros)

lemma edits_ed: "edits (edit_distance xs ys) xs ys"
proof (induction xs ys rule: edit_distance.induct)
  case (1 ys)
  show ?case by (simp add: edits_Nil_left)
next
  case (2 x xs)
  show ?case using edits_Nil_right [of "x # xs"] by simp
next
  case (3 x xs y ys)
  let ?a = "edit_distance xs ys + (if x = y then 0 else 1)"
  let ?b = "edit_distance xs (y # ys) + 1"
  let ?c = "edit_distance (x # xs) ys + 1"
  have a: "edits ?a (x # xs) (y # ys)"
    using "3.IH"(1) by (auto intro: edits.intros)
  have b: "edits ?b (x # xs) (y # ys)"
    using "3.IH"(2) by (auto intro: edits.intros)
  have c: "edits ?c (x # xs) (y # ys)"
    using "3.IH"(3) by (auto intro: edits.intros)
  have "edit_distance (x # xs) (y # ys) = ?a \<or> edit_distance (x # xs) (y # ys) = ?b
        \<or> edit_distance (x # xs) (y # ys) = ?c"
    by (simp add: min_def)
  with a b c show ?case by metis
qed

lemma ed_least: "edits n xs ys \<Longrightarrow> edit_distance xs ys \<le> n"
proof (induction rule: edits.induct)
  case e_nil
  show ?case by simp
next
  case (e_keep n xs ys x)
  then show ?case by (simp add: min.coboundedI1)
next
  case (e_subst n xs ys x y)
  then show ?case by (simp add: min.coboundedI1)
next
  case (e_delete n xs ys x)
  then show ?case using ed_delete_le [of x xs ys] by simp
next
  case (e_insert n xs ys y)
  then show ?case using ed_insert_le [of xs y ys] by simp
qed

lemma edits_snoc_keep: "edits n xs ys \<Longrightarrow> edits n (xs @ [a]) (ys @ [a])"
  by (induction rule: edits.induct) (auto intro: edits.intros)

lemma edits_snoc_subst: "edits n xs ys \<Longrightarrow> edits (Suc n) (xs @ [a]) (ys @ [b])"
  by (induction rule: edits.induct) (auto intro: edits.intros)

lemma edits_snoc_delete: "edits n xs ys \<Longrightarrow> edits (Suc n) (xs @ [a]) ys"
  by (induction rule: edits.induct) (auto intro: edits.intros)

lemma edits_snoc_insert: "edits n xs ys \<Longrightarrow> edits (Suc n) xs (ys @ [b])"
  by (induction rule: edits.induct) (auto intro: edits.intros)

lemma edits_rev: "edits n xs ys \<Longrightarrow> edits n (rev xs) (rev ys)"
  by (induction rule: edits.induct)
     (auto intro: edits.intros edits_snoc_keep edits_snoc_subst edits_snoc_delete edits_snoc_insert)

lemma ed_rev_le: "edit_distance (rev xs) (rev ys) \<le> edit_distance xs ys"
  by (intro ed_least edits_rev edits_ed)

lemma ed_rev: "edit_distance (rev xs) (rev ys) = edit_distance xs ys"
  using ed_rev_le [of xs ys] ed_rev_le [of "rev xs" "rev ys"] by simp

lemma edits_drop_head: "edits n zs ys \<Longrightarrow> zs = x # xs \<Longrightarrow> \<exists>m\<le>Suc n. edits m xs ys"
proof (induction arbitrary: x xs rule: edits.induct)
  case e_nil
  then show ?case by simp
next
  case (e_keep n xs' ys x')
  then show ?case by (auto intro: edits.intros)
next
  case (e_subst n xs' ys x' y)
  then have "edits (Suc n) xs (y # ys)" by (auto intro: edits.intros)
  then show ?case by (meson le_Suc_eq)
next
  case (e_delete n xs' ys x')
  then have "edits n xs ys" by simp
  moreover have "n \<le> Suc (Suc n)" by simp
  ultimately show ?case by blast
next
  case (e_insert n xs' ys y)
  then obtain m where "m \<le> Suc n" "edits m xs ys" by blast
  then have "Suc m \<le> Suc (Suc n)" "edits (Suc m) xs (y # ys)" by (auto intro: edits.intros)
  then show ?case by blast
qed

lemma ed_drop_left: "edit_distance xs ys \<le> Suc (edit_distance (x # xs) ys)"
proof -
  obtain m where "m \<le> Suc (edit_distance (x # xs) ys)" "edits m xs ys"
    using edits_drop_head [OF edits_ed refl, of x xs ys] by auto
  then show ?thesis using ed_least [of m xs ys] by simp
qed

lemma ed_drop_right: "edit_distance xs ys \<le> Suc (edit_distance xs (y # ys))"
  using ed_drop_left [of ys xs y] by (simp add: ed_sym)

lemma ed_Cons_same: "edit_distance (x # xs) (x # ys) = edit_distance xs ys"
  using ed_drop_left [of xs ys x] ed_drop_right [of xs ys x] by (simp add: min_def)

lemma ed_snoc:
  "edit_distance (xs @ [x]) (ys @ [y]) =
     (if x = y then edit_distance xs ys
      else min (edit_distance xs ys + 1)
               (min (edit_distance (xs @ [x]) ys + 1) (edit_distance xs (ys @ [y]) + 1)))"
proof -
  have "edit_distance (xs @ [x]) (ys @ [y]) = edit_distance (x # rev xs) (y # rev ys)"
    using ed_rev [of "xs @ [x]" "ys @ [y]"] by simp
  moreover have "edit_distance (rev xs) (y # rev ys) = edit_distance xs (ys @ [y])"
    using ed_rev [of xs "ys @ [y]"] by simp
  moreover have "edit_distance (x # rev xs) (rev ys) = edit_distance (xs @ [x]) ys"
    using ed_rev [of "xs @ [x]" ys] by simp
  ultimately show ?thesis
    using ed_Cons_same [of x "rev xs" "rev ys"]
    by (auto simp: ed_rev min.commute)
qed

section \<open>The matrix of the scorer\<close>

text \<open>
  The three loops of \<open>levenshteinDistance\<close> build the table of distances between
  prefixes, row by row; each write extends a row by one entry, and each read is of an
  entry already written.
\<close>

lemma init_rows_eq: "init_rows str2 = map (\<lambda>i. [i]) [0..<Suc (length str2)]"
proof -
  have "foldl (\<lambda>matrix i. assign matrix i [i]) [] [0..<k] = map (\<lambda>i. [i]) [0..<k]" for k
    by (induction k) (simp_all add: assign_def)
  then show ?thesis by (simp only: init_rows_def)
qed

lemma init_cols_eq:
  assumes "matrix0 \<noteq> []" and "matrix0 ! 0 = [0]"
  shows "init_cols str1 matrix0 = matrix0[0 := [0..<Suc (length str1)]]"
proof -
  have "foldl (\<lambda>matrix j. matrix[0 := assign (matrix ! 0) j j]) matrix0 [0..<Suc k]
          = matrix0[0 := [0..<Suc k]]" for k
  proof (induction k)
    case 0
    show ?case using assms by (simp add: assign_def list_update_same_conv)
  next
    case (Suc k)
    have "[0..<Suc (Suc k)] = [0..<Suc k] @ [Suc k]" by simp
    then show ?case using assms(1) Suc
      by (simp only: foldl_append) (simp add: assign_def)
  qed
  then show ?thesis by (simp only: init_cols_def)
qed

lemma dist_row_0: "k \<le> Suc (length str1) \<Longrightarrow> dist_row str1 str2 0 k = [0..<k]"
  by (auto simp: dist_row_def intro!: map_idI)

lemma init_stage: "init_cols str1 (init_rows str2) = stage str1 str2 0"
proof -
  have "init_cols str1 (init_rows str2) = (init_rows str2)[0 := [0..<Suc (length str1)]]"
    by (rule init_cols_eq) (simp_all add: init_rows_eq upt_conv_Cons del: upt_Suc)
  also have "\<dots> = stage str1 str2 0"
    by (rule nth_equalityI)
       (auto simp: init_rows_eq stage_def dist_row_0 nth_list_update simp del: upt_Suc)
  finally show ?thesis .
qed

lemma cell_value:
  assumes "i < length str2" and "j < length str1"
  shows "(if str2 ! i = str1 ! j then edit_distance (take i str2) (take j str1)
          else min (edit_distance (take i str2) (take j str1) + 1)
                 (min (edit_distance (take (Suc i) str2) (take j str1) + 1)
                      (edit_distance (take i str2) (take (Suc j) str1) + 1)))
         = edit_distance (take (Suc i) str2) (take (Suc j) str1)"
  using assms by (simp add: take_Suc_conv_app_nth ed_snoc)


lemma stage_length: "length (stage str1 str2 i) = Suc (length str2)"
  by (simp add: stage_def)

lemma stage_done: "r \<le> i \<Longrightarrow> r \<le> length str2 \<Longrightarrow>
    stage str1 str2 i ! r = dist_row str1 str2 r (Suc (length str1))"
  by (simp add: stage_def nth_append less_Suc_eq_le del: upt_Suc)

lemma stage_todo: "i < r \<Longrightarrow> r \<le> length str2 \<Longrightarrow> stage str1 str2 i ! r = [r]"
  by (simp add: stage_def less_Suc_eq_le del: upt_Suc)

lemma dist_row_nth: "j < k \<Longrightarrow>
    dist_row str1 str2 i k ! j = edit_distance (take i str2) (take j str1)"
  by (simp add: dist_row_def)

lemma dist_row_Suc:
  "dist_row str1 str2 i (Suc k) =
     dist_row str1 str2 i k @ [edit_distance (take i str2) (take k str1)]"
  by (simp add: dist_row_def)

lemma fill_cell_step:
  assumes i: "i < length str2" and k: "k < length str1"
  shows "fill_cell str1 str2 (Suc i)
           ((stage str1 str2 i)[Suc i := dist_row str1 str2 (Suc i) (Suc k)]) (Suc k) =
         (stage str1 str2 i)[Suc i := dist_row str1 str2 (Suc i) (Suc (Suc k))]"
proof -
  let ?M = "(stage str1 str2 i)[Suc i := dist_row str1 str2 (Suc i) (Suc k)]"
  have len: "length (dist_row str1 str2 (Suc i) (Suc k)) = Suc k"
    by (simp add: dist_row_def)
  have "fill_cell str1 str2 (Suc i) ?M (Suc k) =
          ?M[Suc i := dist_row str1 str2 (Suc i) (Suc k) @
            [if str2 ! i = str1 ! k then edit_distance (take i str2) (take k str1)
             else min (edit_distance (take i str2) (take k str1) + 1)
                    (min (edit_distance (take (Suc i) str2) (take k str1) + 1)
                         (edit_distance (take i str2) (take (Suc k) str1) + 1))]]"
    using i k unfolding fill_cell_def
    by (simp add: assign_def len dist_row_nth stage_length stage_done del: upt_Suc)
  also have "\<dots> = ?M[Suc i := dist_row str1 str2 (Suc i) (Suc (Suc k))]"
    unfolding cell_value [OF i k] by (simp add: dist_row_Suc)
  finally show ?thesis by simp
qed

lemma fill_row_prefix:
  assumes i: "i < length str2"
  shows "k \<le> length str1 \<Longrightarrow>
         foldl (fill_cell str1 str2 (Suc i)) (stage str1 str2 i) [1..<Suc k] =
         (stage str1 str2 i)[Suc i := dist_row str1 str2 (Suc i) (Suc k)]"
proof (induction k)
  case 0
  have "stage str1 str2 i ! Suc i = dist_row str1 str2 (Suc i) (Suc 0)"
    using i by (simp add: stage_todo dist_row_def ed_Nil2)
  from this [symmetric] show ?case by simp
next
  case (Suc k)
  have "[1..<Suc (Suc k)] = [1..<Suc k] @ [Suc k]" by simp
  then show ?case using Suc fill_cell_step [OF i, of k]
    by (simp only: foldl_append) simp
qed

lemma fill_row_stage:
  assumes i: "i < length str2"
  shows "fill_row str1 str2 (stage str1 str2 i) (Suc i) = stage str1 str2 (Suc i)"
proof -
  have "fill_row str1 str2 (stage str1 str2 i) (Suc i) =
          (stage str1 str2 i)[Suc i := dist_row str1 str2 (Suc i) (Suc (length str1))]"
    unfolding fill_row_def by (rule fill_row_prefix [OF i]) simp
  also have "\<dots> = stage str1 str2 (Suc i)"
  proof (rule nth_equalityI)
    fix r
    assume "r < length ((stage str1 str2 i)
                [Suc i := dist_row str1 str2 (Suc i) (Suc (length str1))])"
    then have r: "r \<le> length str2" by (simp add: stage_length)
    consider "r \<le> i" | "r = Suc i" | "Suc i < r" by linarith
    then show "(stage str1 str2 i)[Suc i := dist_row str1 str2 (Suc i) (Suc (length str1))] ! r
                 = stage str1 str2 (Suc i) ! r"
    proof cases
      case 1
      then show ?thesis using r by (simp add: stage_done)
    next
      case 2
      then show ?thesis using r by (simp add: stage_done stage_length)
    next
      case 3
      then show ?thesis using r by (simp add: stage_todo)
    qed
  qed (simp add: stage_length)
  finally show ?thesis .
qed

lemma fill_matrix_stage:
  "k \<le> length str2 \<Longrightarrow>
   foldl (fill_row str1 str2) (stage str1 str2 0) [1..<Suc k] = stage str1 str2 k"
proof (induction k)
  case 0
  show ?case by simp
next
  case (Suc k)
  have "[1..<Suc (Suc k)] = [1..<Suc k] @ [Suc k]" by simp
  then show ?case using Suc fill_row_stage [of k str2 str1]
    by (simp only: foldl_append) simp
qed

lemma levenshtein_edit_distance:
  "levenshteinDistance str1 str2 = edit_distance str1 str2"
proof -
  have "fill_matrix str1 str2 = stage str1 str2 (length str2)"
    unfolding fill_matrix_def init_stage by (rule fill_matrix_stage) simp
  then have "levenshteinDistance str1 str2 = edit_distance str2 str1"
    by (simp add: levenshteinDistance_def stage_done dist_row_nth)
  then show ?thesis by (simp add: ed_sym)
qed

section \<open>The similarity score\<close>

text \<open>
  For all strings the scorer returns \<open>(max(len1, len2) - d) / max(len1, len2)\<close>, where
  the lengths are those of the strings as given and \<open>d\<close> is the unit-cost edit distance
  between the lower-cased strings, and 1 when both strings are empty. The result is at
  most 1; it is at least 0 where lower-casing lengthens neither string.
\<close>

lemma similarity_formula_with:
  "calculateSimilarity_with lower s1 s2 =
     (if s1 = [] \<and> s2 = [] then 1
      else (of_nat (max (length s1) (length s2)) - of_nat (edit_distance (lower s1) (lower s2)))
           / of_nat (max (length s1) (length s2)))"
  by (auto simp: calculateSimilarity_with_def Let_def levenshtein_edit_distance max_def
        ed_sym [of "lower s2" "lower s1"])

lemma similarity_at_most_one: "calculateSimilarity_with lower s1 s2 \<le> 1"
  unfolding similarity_formula_with
  by (cases "max (length s1) (length s2) = 0") (simp_all add: divide_le_eq)

lemma similarity_at_least_zero:
  assumes "length (lower s1) \<le> length s1" and "length (lower s2) \<le> length s2"
  shows "0 \<le> calculateSimilarity_with lower s1 s2"
proof -
  have "edit_distance (lower s1) (lower s2) \<le> max (length s1) (length s2)"
    using ed_le_max [of "lower s1" "lower s2"] assms by simp
  then have "(of_nat (edit_distance (lower s1) (lower s2)) :: rat)
               \<le> of_nat (max (length s1) (length s2))"
    by (simp only: of_nat_le_iff)
  then show ?thesis unfolding similarity_formula_with by simp
qed

lemma similarity_unit_interval:
  "0 \<le> calculateSimilarity s1 s2 \<and> calculateSimilarity s1 s2 \<le> 1"
  unfolding calculateSimilarity_def
  by (simp add: similarity_at_most_one similarity_at_least_zero length_lower)



section \<open>The derivative matcher\<close>

text \<open>\<open>test_full\<close> decides what the patterns mean.\<close>

lemma match_Cat_iff:
  "rx_match (Cat r s) w \<longleftrightarrow> (\<exists>u v. w = u @ v \<and> rx_match r u \<and> rx_match s v)"
  by (subst rx_match.simps) auto

lemma match_Alt_iff: "rx_match (Alt r s) w \<longleftrightarrow> rx_match r w \<or> rx_match s w"
  by (subst rx_match.simps) auto

lemma match_Eps_iff: "rx_match Eps w \<longleftrightarrow> w = []"
  by (subst rx_match.simps) auto

lemma match_Void_iff: "rx_match Void w \<longleftrightarrow> False"
  by (subst rx_match.simps) auto

lemma match_Chr_iff: "rx_match (Chr cs) w \<longleftrightarrow> (\<exists>c. w = [c] \<and> c \<in> set cs)"
  by (subst rx_match.simps) auto

lemma match_NChr_iff: "rx_match (NChr cs) w \<longleftrightarrow> (\<exists>c. w = [c] \<and> c \<notin> set cs)"
  by (subst rx_match.simps) auto

lemma nullable_iff: "nullable r \<longleftrightarrow> rx_match r []"
  by (induction r)
     (auto simp: match_Cat_iff match_Alt_iff match_Eps_iff match_Void_iff match_Chr_iff
        match_NChr_iff intro: m_star0)

lemma match_Star_Cons:
  "rx_match q w \<Longrightarrow> q = Star r \<Longrightarrow> w = c # x \<Longrightarrow>
     \<exists>u v. x = u @ v \<and> rx_match r (c # u) \<and> rx_match (Star r) v"
proof (induction arbitrary: c x rule: rx_match.induct)
  case (m_star r' u v)
  show ?case
  proof (cases u)
    case Nil
    with m_star show ?thesis by simp
  next
    case (Cons a u')
    with m_star.prems m_star.hyps show ?thesis by auto
  qed
qed simp_all

lemma match_Star_Cons_iff:
  "rx_match (Star r) (c # x) \<longleftrightarrow>
     (\<exists>u v. x = u @ v \<and> rx_match r (c # u) \<and> rx_match (Star r) v)"
proof
  assume "rx_match (Star r) (c # x)"
  then show "\<exists>u v. x = u @ v \<and> rx_match r (c # u) \<and> rx_match (Star r) v"
    by (rule match_Star_Cons) simp_all
next
  assume "\<exists>u v. x = u @ v \<and> rx_match r (c # u) \<and> rx_match (Star r) v"
  then obtain u v where "x = u @ v" "rx_match r (c # u)" "rx_match (Star r) v" by blast
  then show "rx_match (Star r) (c # x)"
    using m_star [of r "c # u" v] by simp
qed

lemma deriv_iff: "rx_match (deriv c r) w \<longleftrightarrow> rx_match r (c # w)"
proof (induction r arbitrary: w)
  case (Cat r s)
  have "rx_match (Cat r s) (c # w) \<longleftrightarrow>
          (rx_match r [] \<and> rx_match s (c # w)) \<or>
          (\<exists>u v. w = u @ v \<and> rx_match r (c # u) \<and> rx_match s v)"
    unfolding match_Cat_iff [of r s "c # w"]
    by (auto simp: Cons_eq_append_conv)
  with Cat show ?case
    by (auto simp: match_Alt_iff match_Cat_iff nullable_iff)
next
  case (Star r)
  then show ?case by (simp add: match_Cat_iff match_Star_Cons_iff)
qed (auto simp: match_Alt_iff match_Eps_iff match_Void_iff match_Chr_iff match_NChr_iff)

lemma test_full_iff: "test_full r w \<longleftrightarrow> rx_match r w"
  by (induction w arbitrary: r) (simp_all add: nullable_iff deriv_iff)

section \<open>Tokens\<close>

text \<open>
  Tokens are non-empty and free of white space, and joining such tokens with single
  spaces and splitting again gives them back.
\<close>

lemma dropWhile_none: "list_all (\<lambda>c. \<not> P c) xs \<Longrightarrow> dropWhile P xs = xs"
  by (cases xs) auto

lemma ws_free_trim: "ws_free s \<Longrightarrow> trim s = s"
  using dropWhile_none [of is_space s] dropWhile_none [of is_space "rev s"]
  by (simp add: trim_def ws_free_def list_all_iff)

lemma split_from_ws_free:
  "ws_free cur \<Longrightarrow> list_all ws_free (split_from cur s)"
proof (induction cur s rule: split_from.induct)
  case (1 cur)
  then show ?case by simp
next
  case (2 cur c s)
  then show ?case by (auto simp: ws_free_def)
qed

lemma split_from_token:
  "ws_free t \<Longrightarrow> split_from cur (t @ rest) = split_from (cur @ t) rest"
  by (induction t arbitrary: cur) (simp_all add: ws_free_def)

lemma join_space_Cons:
  "join_space (t # ts) = (if ts = [] then t else t @ CHR '' '' # join_space ts)"
  by (cases ts) simp_all

lemma split_from_join:
  assumes "list_all (\<lambda>t. ws_free t \<and> t \<noteq> []) (t # ts)"
  shows "split_from cur (join_space (t # ts)) = (cur @ t) # ts"
  using assms
proof (induction ts arbitrary: cur t)
  case Nil
  then show ?case using split_from_token [of t cur "[]"] by simp
next
  case (Cons u ts)
  have u: "u \<noteq> []" "\<not> is_space (hd u)"
    using Cons.prems by (auto simp: ws_free_def list_all_iff)
  have "hd (join_space (u # ts)) = hd u" "join_space (u # ts) \<noteq> []"
    using u by (auto simp: join_space_Cons)
  then have dw: "dropWhile is_space (join_space (u # ts)) = join_space (u # ts)"
    using u by (cases "join_space (u # ts)") auto
  have "split_from cur (join_space (t # u # ts)) =
          split_from (cur @ t) (CHR '' '' # join_space (u # ts))"
    using Cons.prems split_from_token [of t cur] by simp
  also have "\<dots> = (cur @ t) # split_from [] (join_space (u # ts))"
    by (simp add: dw is_space_def white_space_def)
  also have "split_from [] (join_space (u # ts)) = u # ts"
    using Cons.IH [of u "[]"] Cons.prems by simp
  finally show ?case .
qed

lemma join_space_last:
  "list_all (\<lambda>t. ws_free t \<and> t \<noteq> []) ts \<Longrightarrow> ts \<noteq> [] \<Longrightarrow>
     join_space ts \<noteq> [] \<and> \<not> is_space (last (join_space ts))"
proof (induction ts rule: join_space.induct)
  case (2 t)
  then show ?case by (cases t rule: rev_cases) (auto simp: ws_free_def)
qed simp_all


lemma tokens_of_join:
  assumes "list_all (\<lambda>t. ws_free t \<and> t \<noteq> []) ts"
  shows "trim (join_space ts) = join_space ts" and "tokens_of (join_space ts) = ts"
proof -
  show t: "trim (join_space ts) = join_space ts"
  proof (cases ts)
    case Nil
    then show ?thesis by (simp add: trim_Nil)
  next
    case (Cons u us)
    have "\<not> is_space (hd (join_space ts))"
      using assms Cons by (cases u) (auto simp: join_space_Cons ws_free_def)
    moreover have "\<not> is_space (last (join_space ts))"
      using join_space_last [OF assms] Cons by simp
    ultimately show ?thesis by (simp add: trim_fixed_iff)
  qed
  show "tokens_of (join_space ts) = ts"
  proof (cases ts)
    case Nil
    then show ?thesis by (simp add: tokens_of_def split_ws_def trim_Nil)
  next
    case (Cons u us)
    have "split_from [] (join_space (u # us)) = u # us"
      using split_from_join [of u us "[]"] assms Cons by simp
    moreover have "filter (\<lambda>token. length token > 0) ts = ts"
      using assms by (auto simp: list_all_iff intro: filter_True)
    ultimately show ?thesis
      using t Cons by (simp add: tokens_of_def split_ws_def)
  qed
qed

lemma tokens_ok: "list_all (\<lambda>t. ws_free t \<and> t \<noteq> []) (tokens_of s)"
  using split_from_ws_free [of "[]" "trim s"]
  by (auto simp: tokens_of_def split_ws_def list_all_iff ws_free_def)

section \<open>The cleaner partitions the tokens\<close>

text \<open>
  The callback looks at one token at a time: it keeps the token, or drops it and pushes
  one entry. Its decision does not depend on what was pushed before.
\<close>

lemma keep_token_cases:
  assumes "trim t = t" and "t \<noteq> []"
  shows "keep_token names removed t =
    (if is_ip_token t then (False, removed @ [''IP: '' @ t])
     else if is_mac_token t then (False, removed @ [''MAC: '' @ t])
     else if is_date_token t then (False, removed @ [''Date: '' @ t])
     else if is_manufacturer names (toLowerCase t) then (False, removed @ [''Manufacturer: '' @ t])
     else if test_full ALPHABETIC t \<and> length t > 2 \<and> toLowerCase t \<in> set COMMON_WORDS
       then (False, removed @ [''Common word: '' @ t])
     else if test_anywhere ALPHANUMERIC t then (True, removed)
     else if test_full PUNCTUATION t then (False, removed @ [''Punctuation: '' @ t])
     else (True, removed))"
  using assms
  by (simp add: keep_token_def Let_def is_ip_token_def is_mac_token_def is_date_token_def)


lemma keep_token_label:
  assumes "trim t = t" and "t \<noteq> []"
  shows "\<exists>label. valid_label label \<and>
           keep_token names removed t =
             (label = None,
              removed @ (case label of None \<Rightarrow> [] | Some reason \<Rightarrow> [reason @ '': '' @ t]))"
proof -
  let ?P = "\<lambda>label. valid_label label \<and>
           keep_token names removed t =
             (label = None,
              removed @ (case label of None \<Rightarrow> [] | Some reason \<Rightarrow> [reason @ '': '' @ t]))"
  note kt = keep_token_cases [OF assms, of names removed]
  consider (ip) "is_ip_token t"
    | (mac) "\<not> is_ip_token t" "is_mac_token t"
    | (date) "\<not> is_ip_token t" "\<not> is_mac_token t" "is_date_token t"
    | (man) "\<not> is_ip_token t" "\<not> is_mac_token t" "\<not> is_date_token t"
        "is_manufacturer names (toLowerCase t)"
    | (common) "\<not> is_ip_token t" "\<not> is_mac_token t" "\<not> is_date_token t"
        "\<not> is_manufacturer names (toLowerCase t)"
        "test_full ALPHABETIC t \<and> length t > 2 \<and> toLowerCase t \<in> set COMMON_WORDS"
    | (punct) "\<not> is_ip_token t" "\<not> is_mac_token t" "\<not> is_date_token t"
        "\<not> is_manufacturer names (toLowerCase t)"
        "\<not> (test_full ALPHABETIC t \<and> length t > 2 \<and> toLowerCase t \<in> set COMMON_WORDS)"
        "\<not> test_anywhere ALPHANUMERIC t" "test_full PUNCTUATION t"
    | (keep) "keep_token names removed t = (True, removed)"
    using kt by (auto split: if_splits)
  then show ?thesis
  proof cases
    case ip
    then have "?P (Some ''IP'')" using kt by (simp add: valid_label_def reasons_def)
    then show ?thesis ..
  next
    case mac
    then have "?P (Some ''MAC'')" using kt by (simp add: valid_label_def reasons_def)
    then show ?thesis ..
  next
    case date
    then have "?P (Some ''Date'')" using kt by (simp add: valid_label_def reasons_def)
    then show ?thesis ..
  next
    case man
    then have "?P (Some ''Manufacturer'')" using kt by (simp add: valid_label_def reasons_def)
    then show ?thesis ..
  next
    case common
    then have "?P (Some ''Common word'')" using kt by (simp add: valid_label_def reasons_def)
    then show ?thesis ..
  next
    case punct
    then have "?P (Some ''Punctuation'')" using kt by (simp add: valid_label_def reasons_def)
    then show ?thesis ..
  next
    case keep
    then have "?P None" by (simp add: valid_label_def)
    then show ?thesis ..
  qed
qed

lemma kept_tokens_Nil: "kept_tokens [] [] = []"
  by (simp add: kept_tokens_def)

lemma removed_entries_Nil: "removed_entries [] [] = []"
  by (simp add: removed_entries_def)

lemma kept_tokens_Cons:
  "kept_tokens (t # tokens) (label # labels) =
     (if label = None then t # kept_tokens tokens labels else kept_tokens tokens labels)"
  by (simp add: kept_tokens_def)

lemma removed_entries_Cons:
  "removed_entries (t # tokens) (label # labels) =
     (case label of None \<Rightarrow> [] | Some reason \<Rightarrow> [reason @ '': '' @ t])
       @ removed_entries tokens labels"
  by (simp add: removed_entries_def split: option.split)

lemma filter_tokens_labels:
  "list_all (\<lambda>t. ws_free t \<and> t \<noteq> []) tokens \<Longrightarrow>
   \<exists>labels. length labels = length tokens \<and> list_all valid_label labels \<and>
     filter_tokens names removed tokens =
       (kept_tokens tokens labels, removed @ removed_entries tokens labels)"
proof (induction tokens arbitrary: removed)
  case Nil
  show ?case by (simp add: kept_tokens_Nil removed_entries_Nil)
next
  case (Cons t tokens)
  then have t: "trim t = t" "t \<noteq> []" by (simp_all add: ws_free_trim)
  obtain label where label: "valid_label label"
    "keep_token names removed t =
       (label = None,
        removed @ (case label of None \<Rightarrow> [] | Some reason \<Rightarrow> [reason @ '': '' @ t]))"
    using keep_token_label [OF t] by blast
  let ?removed1 = "removed @ (case label of None \<Rightarrow> [] | Some reason \<Rightarrow> [reason @ '': '' @ t])"
  obtain labels where labels: "length labels = length tokens" "list_all valid_label labels"
    "filter_tokens names ?removed1 tokens =
       (kept_tokens tokens labels, ?removed1 @ removed_entries tokens labels)"
    using Cons.IH [of ?removed1] Cons.prems by auto
  have "length (label # labels) = length (t # tokens) \<and> list_all valid_label (label # labels) \<and>
     filter_tokens names removed (t # tokens) =
       (kept_tokens (t # tokens) (label # labels),
        removed @ removed_entries (t # tokens) (label # labels))"
    using label labels
    by (simp add: kept_tokens_Cons removed_entries_Cons)
  then show ?case by blast
qed

lemma kept_tokens_ok:
  "list_all P tokens \<Longrightarrow> list_all P (kept_tokens tokens labels)"
  by (auto simp: kept_tokens_def list_all_iff dest: in_set_zipE)

lemma partition_lengths:
  "length labels = length tokens \<Longrightarrow>
   length (kept_tokens tokens labels) + length (removed_entries tokens labels) = length tokens"
proof (induction tokens labels rule: list_induct2')
  case (4 t tokens label labels)
  then show ?case by (cases label) (simp_all add: kept_tokens_Cons removed_entries_Cons)
qed (simp_all add: kept_tokens_Nil removed_entries_Nil)

lemma clean_labels:
  "\<exists>labels. length labels = length (tokens_of input) \<and> list_all valid_label labels \<and>
     cleanModelData input names =
       \<lparr>original = trim input,
        cleaned = join_space (kept_tokens (tokens_of input) labels),
        removedElements = removed_entries (tokens_of input) labels\<rparr>"
proof (cases "input = []")
  case True
  have "length [] = length (tokens_of input) \<and> list_all valid_label [] \<and>
     cleanModelData input names =
       \<lparr>original = trim input,
        cleaned = join_space (kept_tokens (tokens_of input) []),
        removedElements = removed_entries (tokens_of input) []\<rparr>"
    using True
    by (simp add: cleanModelData_def tokens_of_def trim_Nil split_ws_def kept_tokens_def
          removed_entries_def)
  then show ?thesis by blast
next
  case False
  obtain labels where labels: "length labels = length (tokens_of input)"
    "list_all valid_label labels"
    "filter_tokens names [] (tokens_of input) =
       (kept_tokens (tokens_of input) labels, [] @ removed_entries (tokens_of input) labels)"
    using filter_tokens_labels [OF tokens_ok, where names = names and removed = "[]"] by blast
  have "list_all (\<lambda>t. ws_free t \<and> t \<noteq> []) (kept_tokens (tokens_of input) labels)"
    by (rule kept_tokens_ok [OF tokens_ok])
  then have "trim (join_space (kept_tokens (tokens_of input) labels)) =
               join_space (kept_tokens (tokens_of input) labels)"
    by (rule tokens_of_join(1))
  then have "cleanModelData input names =
       \<lparr>original = trim input,
        cleaned = join_space (kept_tokens (tokens_of input) labels),
        removedElements = removed_entries (tokens_of input) labels\<rparr>"
    using False labels(3) by (simp add: cleanModelData_def Let_def tokens_of_def)
  with labels(1,2) show ?thesis by blast
qed

text \<open>
  C10. The tokens of the trimmed input are partitioned by \<open>cleanModelData\<close>: every token
  is either kept, and then appears unchanged and in its place among the tokens of the
  cleaned output, or removed, and then contributes the one entry \<open><reason>: <token>\<close> to
  \<open>removedElements\<close>, which lists the removed tokens in their order. So the numbers of
  cleaned tokens and of removed entries add up to the number of tokens.
\<close>

theorem tokens_partitioned:
  "\<exists>labels. length labels = length (tokens_of input) \<and>
     list_all (\<lambda>label. label = None \<or> label \<in> Some ` set reasons) labels \<and>
     tokens_of (cleaned (cleanModelData input names)) = kept_tokens (tokens_of input) labels \<and>
     removedElements (cleanModelData input names) = removed_entries (tokens_of input) labels \<and>
     length (tokens_of (cleaned (cleanModelData input names)))
       + length (removedElements (cleanModelData input names)) = length (tokens_of input)"
proof -
  obtain labels where labels: "length labels = length (tokens_of input)"
    "list_all valid_label labels"
    "cleanModelData input names =
       \<lparr>original = trim input,
        cleaned = join_space (kept_tokens (tokens_of input) labels),
        removedElements = removed_entries (tokens_of input) labels\<rparr>"
    using clean_labels by blast
  have "list_all (\<lambda>t. ws_free t \<and> t \<noteq> []) (kept_tokens (tokens_of input) labels)"
    by (rule kept_tokens_ok [OF tokens_ok])
  then have kept: "tokens_of (cleaned (cleanModelData input names)) =
                     kept_tokens (tokens_of input) labels"
    using labels(3) by (simp add: tokens_of_join(2))
  have "length labels = length (tokens_of input) \<and>
     list_all (\<lambda>label. label = None \<or> label \<in> Some ` set reasons) labels \<and>
     tokens_of (cleaned (cleanModelData input names)) = kept_tokens (tokens_of input) labels \<and>
     removedElements (cleanModelData input names) = removed_entries (tokens_of input) labels \<and>
     length (tokens_of (cleaned (cleanModelData input names)))
       + length (removedElements (cleanModelData input names)) = length (tokens_of input)"
    using labels kept partition_lengths [OF labels(1)]
    by (simp add: valid_label_def [abs_def])
  then show ?thesis by blast
qed

theorem tokens_partitioned_witness:
  "\<exists>labels. length labels = length [''AXS-4000'', ''192.168.1.5'', ''2023-04-01'', ''Axis''] \<and>
     list_all (\<lambda>label. label = None \<or> label \<in> Some ` set reasons) labels \<and>
     [''AXS-4000''] =
       kept_tokens [''AXS-4000'', ''192.168.1.5'', ''2023-04-01'', ''Axis''] labels \<and>
     [''IP: 192.168.1.5'', ''Date: 2023-04-01'', ''Manufacturer: Axis''] =
       removed_entries [''AXS-4000'', ''192.168.1.5'', ''2023-04-01'', ''Axis''] labels"
proof -
  have t: "tokens_of '' AXS-4000 192.168.1.5  2023-04-01 Axis'' =
             [''AXS-4000'', ''192.168.1.5'', ''2023-04-01'', ''Axis'']"
    by code_simp
  have c: "cleanModelData '' AXS-4000 192.168.1.5  2023-04-01 Axis'' [''Axis''] =
             \<lparr>original = ''AXS-4000 192.168.1.5  2023-04-01 Axis'', cleaned = ''AXS-4000'',
              removedElements =
                [''IP: 192.168.1.5'', ''Date: 2023-04-01'', ''Manufacturer: Axis'']\<rparr>"
    by code_simp
  have tc: "tokens_of ''AXS-4000'' = [''AXS-4000'']"
    by code_simp
  show ?thesis
    using tokens_partitioned [of "'' AXS-4000 192.168.1.5  2023-04-01 Axis''" "[''Axis'']"]
    unfolding t c by (simp add: tc)
qed

section \<open>Tokens without noise\<close>

text \<open>What the character-class patterns and the vocabulary test of the callback decide.\<close>

lemma star_chars:
  assumes single: "\<And>u. rx_match r u \<longleftrightarrow> (\<exists>c. u = [c] \<and> P c)"
  shows "rx_match (Star r) w \<longleftrightarrow> list_all P w"
proof (induction w)
  case Nil
  show ?case by (simp add: m_star0)
next
  case (Cons c w)
  have "rx_match (Star r) (c # w) \<longleftrightarrow> P c \<and> rx_match (Star r) w"
    unfolding match_Star_Cons_iff [of r c w] single by auto
  with Cons show ?case by simp
qed

lemma plus_chars:
  assumes single: "\<And>u. rx_match r u \<longleftrightarrow> (\<exists>c. u = [c] \<and> P c)"
  shows "test_full (plus r) w \<longleftrightarrow> w \<noteq> [] \<and> list_all P w"
proof -
  have "rx_match (plus r) w \<longleftrightarrow> (\<exists>c v. w = c # v \<and> P c \<and> list_all P v)"
  proof
    assume "rx_match (plus r) w"
    then obtain u v where "w = u @ v" "rx_match r u" "rx_match (Star r) v"
      unfolding plus_def match_Cat_iff by blast
    moreover from this obtain c where "u = [c]" "P c" using single by blast
    ultimately show "\<exists>c v. w = c # v \<and> P c \<and> list_all P v"
      using star_chars [of r P, OF single] by simp
  next
    assume "\<exists>c v. w = c # v \<and> P c \<and> list_all P v"
    then obtain c v where w: "w = c # v" "P c" "list_all P v" by blast
    then have "rx_match r [c]" "rx_match (Star r) v"
      using single star_chars [of r P, OF single] by simp_all
    then show "rx_match (plus r) w"
      using m_cat [of r "[c]" "Star r" v] w by (simp add: plus_def)
  qed
  then show ?thesis unfolding test_full_iff by (cases w) auto
qed

lemma alphabetic_iff:
  "test_full ALPHABETIC t \<longleftrightarrow> t \<noteq> [] \<and> list_all (\<lambda>c. c \<in> set alpha_chars) t"
  unfolding ALPHABETIC_def by (rule plus_chars) (rule match_Chr_iff)

lemma punctuation_iff:
  "test_full PUNCTUATION t \<longleftrightarrow>
     t \<noteq> [] \<and> list_all (\<lambda>c. c \<notin> set (word_chars @ white_space @ ''-_.'')) t"
  unfolding PUNCTUATION_def by (rule plus_chars) (rule match_NChr_iff)

lemma match_any: "rx_match (Star (NChr [])) w"
  by (simp add: star_chars [of "NChr []" "\<lambda>c. True"] match_NChr_iff list_all_iff)

lemma anywhere_chars: "test_anywhere (Chr cs) w \<longleftrightarrow> list_ex (\<lambda>c. c \<in> set cs) w"
proof -
  let ?r = "seq [Star (NChr []), Chr cs, Star (NChr [])]"
  have "rx_match ?r w \<longleftrightarrow> (\<exists>c\<in>set w. c \<in> set cs)"
  proof
    assume "rx_match ?r w"
    then obtain u c v where "w = u @ [c] @ v" "c \<in> set cs"
      unfolding seq_def foldr.simps comp_def match_Cat_iff match_Chr_iff match_Eps_iff
      by blast
    then show "\<exists>c\<in>set w. c \<in> set cs" by auto
  next
    assume "\<exists>c\<in>set w. c \<in> set cs"
    then obtain u c v where w: "w = u @ c # v" "c \<in> set cs"
      by (metis in_set_conv_decomp)
    have tail: "rx_match (Cat (Star (NChr [])) Eps) (v @ [])"
      by (rule m_cat [OF match_any m_eps])
    have "rx_match (Cat (Chr cs) (Cat (Star (NChr [])) Eps)) ([c] @ v)"
      using m_cat [OF m_chr [OF w(2)] tail] by simp
    then have "rx_match (Cat (Star (NChr [])) (Cat (Chr cs) (Cat (Star (NChr [])) Eps)))
                 (u @ [c] @ v)"
      by (rule m_cat [OF match_any])
    then show "rx_match ?r w" using w(1) by (simp add: seq_def)
  qed
  then show ?thesis by (simp add: test_anywhere_def test_full_iff list_ex_iff)
qed

lemma alphanumeric_iff: "test_anywhere ALPHANUMERIC t \<longleftrightarrow> has_ascii_alnum t"
  by (simp add: ALPHANUMERIC_def anywhere_chars has_ascii_alnum_def)

lemma manufacturer_iff:
  "is_manufacturer names (toLowerCase t) \<longleftrightarrow>
     within_vocabulary names t \<or> contains_vocabulary names t"
  unfolding is_manufacturer_def within_vocabulary_def contains_vocabulary_def
    list_ex_iff includes_sublist ci_substring_def
  by (metis (no_types))





text \<open>
  A token of letters outside \<open>a\<close> to \<open>z\<close> and \<open>A\<close> to \<open>Z\<close> is not pure punctuation, and the
  last test of the callback removes it as such: the patterns \<open>/[a-zA-Z0-9]/\<close> and \<open>\w\<close>
  know the letters of ASCII only. The statement above leaves such tokens out.
\<close>

lemma latin1_letters_removed_example:
  "\<not> pure_punctuation [CHR 0xC9, CHR 0xE9] \<and>
   cleanModelData (''AXS-4000 '' @ [CHR 0xC9, CHR 0xE9]) [''Axis''] =
     \<lparr>original = ''AXS-4000 '' @ [CHR 0xC9, CHR 0xE9], cleaned = ''AXS-4000'',
      removedElements = [''Punctuation: '' @ [CHR 0xC9, CHR 0xE9]]\<rparr>"
  by code_simp

section \<open>Tokens of punctuation\<close>

text \<open>
  A token that begins with a character no pattern can begin with matches none of the
  address and date patterns; the cleaner's result, token by token.
\<close>

lemma firsts_sound: "rx_match r w \<Longrightarrow> w = c # x \<Longrightarrow> firsts r c"
proof (induction arbitrary: x rule: rx_match.induct)
  case (m_cat r u s v)
  then show ?case by (cases u) (auto simp: nullable_iff)
next
  case (m_star r u v)
  then show ?case by (cases u) auto
qed auto

lemma no_first: "\<not> firsts r c \<Longrightarrow> \<not> test_full r (c # w)"
  unfolding test_full_iff using firsts_sound by blast

lemma test_full_Alt: "test_full (Alt r s) w \<longleftrightarrow> test_full r w \<or> test_full s w"
  by (simp add: test_full_iff match_Alt_iff)

lemma test_full_lit: "test_full (lit s) w \<longleftrightarrow> w = s"
  unfolding test_full_iff
  by (induction s arbitrary: w) (auto simp: match_Eps_iff match_Cat_iff match_Chr_iff)

lemma digit_word: "c \<in> set ''0123456789'' \<Longrightarrow> c \<in> set word_chars"
  by (auto simp: word_chars_def)

lemma hex_word: "c \<in> set ''0123456789abcdefABCDEF'' \<Longrightarrow> c \<in> set word_chars"
  by (auto simp: word_chars_def alpha_chars_def)

lemma alpha_word: "c \<in> set alpha_chars \<Longrightarrow> c \<in> set word_chars"
  by (simp add: word_chars_def)

lemma firsts_ipv4: "firsts IP_ADDRESS_PATTERN c \<Longrightarrow> c \<in> set ''0123456789''"
  by (auto simp: IP_ADDRESS_PATTERN_def octet_def seq_def alts_def opt_def digit_def
        numeral_eq_Suc)

lemma firsts_ipv6_full:
  "firsts (seq [rep 7 (seq [rep_range 1 4 hex, Chr '':'']), rep_range 1 4 hex]) c
     \<Longrightarrow> c \<in> set ''0123456789abcdefABCDEF''"
  by (simp add: seq_def rep_range_def hex_def numeral_eq_Suc)

lemma firsts_mac: "firsts MAC_ADDRESS_PATTERN c \<Longrightarrow> c \<in> set ''0123456789abcdefABCDEF''"
  by (auto simp: MAC_ADDRESS_PATTERN_def seq_def alts_def hex_def numeral_eq_Suc)

lemma firsts_alts: "firsts (alts rs) c \<longleftrightarrow> list_ex (\<lambda>r. firsts r c) rs"
  by (induction rs) (simp_all add: alts_def)

lemma nullable_alts: "nullable (alts rs) \<longleftrightarrow> list_ex nullable rs"
  by (induction rs) (simp_all add: alts_def)

lemma firsts_lit_i:
  "firsts (lit_i s) c \<Longrightarrow> s \<noteq> [] \<and> c \<in> {toLowerCase_char (hd s), toUpperCase_char (hd s)}"
  by (cases s) auto

lemma firsts_month: "firsts month c \<Longrightarrow> c \<in> set word_chars"
proof -
  let ?names = "[''Jan'', ''Feb'', ''Mar'', ''Apr'', ''May'', ''Jun'',
                 ''Jul'', ''Aug'', ''Sep'', ''Oct'', ''Nov'', ''Dec'']"
  assume "firsts month c"
  then have "\<exists>r \<in> lit_i ` set ?names. firsts r c"
    by (simp only: month_def firsts_alts list_ex_iff set_map)
  then obtain s where s: "s \<in> set ?names" and "firsts (lit_i s) c" by blast
  then have c: "c \<in> {toLowerCase_char (hd s), toUpperCase_char (hd s)}"
    using firsts_lit_i by blast
  have "list_all (\<lambda>s. toLowerCase_char (hd s) \<in> set alpha_chars \<and>
                       toUpperCase_char (hd s) \<in> set alpha_chars)
          [''Jan'', ''Feb'', ''Mar'', ''Apr'', ''May'', ''Jun'',
           ''Jul'', ''Aug'', ''Sep'', ''Oct'', ''Nov'', ''Dec'']"
    by code_simp
  with s c have "c \<in> set alpha_chars" unfolding list_all_iff by blast
  then show ?thesis by (rule alpha_word)
qed

lemma nullable_month: "\<not> nullable month"
  by (simp add: month_def nullable_alts)

lemma firsts_date:
  "list_ex (\<lambda>pattern. firsts pattern c) DATE_PATTERNS \<Longrightarrow> c \<in> set word_chars"
  using firsts_month [of c] digit_word [of c]
  by (auto simp: DATE_PATTERNS_def seq_def rep_range_def digit_def numeral_eq_Suc
        nullable_month)


lemma test_full_Void: "\<not> test_full Void w"
  by (simp add: test_full_iff match_Void_iff)

lemma keep_token_append:
  "keep_token names removed t =
     (fst (keep_token names [] t), removed @ snd (keep_token names [] t))"
  by (simp add: keep_token_def Let_def)

lemma filter_tokens_explicit:
  "filter_tokens names removed tokens =
     (filter (\<lambda>t. fst (keep_token names [] t)) tokens,
      removed @ concat (map (\<lambda>t. snd (keep_token names [] t)) tokens))"
proof (induction tokens arbitrary: removed)
  case Nil
  show ?case by simp
next
  case (Cons t tokens)
  show ?case
    by (simp add: Cons.IH keep_token_append [of names removed t])
qed

lemma clean_explicit:
  "cleanModelData input names =
     \<lparr>original = trim input,
      cleaned = join_space (filter (\<lambda>t. fst (keep_token names [] t)) (tokens_of input)),
      removedElements = concat (map (\<lambda>t. snd (keep_token names [] t)) (tokens_of input))\<rparr>"
proof -
  have "list_all (\<lambda>t. ws_free t \<and> t \<noteq> [])
          (filter (\<lambda>t. fst (keep_token names [] t)) (tokens_of input))"
    using tokens_ok [of input] by (simp add: list_all_iff)
  then have "trim (join_space (filter (\<lambda>t. fst (keep_token names [] t)) (tokens_of input))) =
               join_space (filter (\<lambda>t. fst (keep_token names [] t)) (tokens_of input))"
    by (rule tokens_of_join(1))
  then show ?thesis
    by (cases "input = []")
       (simp_all add: cleanModelData_def Let_def filter_tokens_explicit tokens_of_def
          trim_Nil split_ws_def)
qed

lemma punctuation_token:
  assumes ws: "ws_free t" and ne: "t \<noteq> []"
    and punct: "list_all (\<lambda>c. c \<notin> set (word_chars @ ''-.'')) t"
    and colons: "t \<noteq> ''::''"
    and vocab: "\<not> within_vocabulary names t" "\<not> contains_vocabulary names t"
  shows "keep_token names removed t = (False, removed @ [''Punctuation: '' @ t])"
proof -
  from ne obtain c w where t: "t = c # w" by (cases t) auto
  with punct have c: "c \<notin> set word_chars" by simp
  have ipv4: "\<not> test_full IP_ADDRESS_PATTERN t"
    unfolding t using c firsts_ipv4 digit_word by (intro no_first) blast
  have "\<not> test_full (seq [rep 7 (seq [rep_range 1 4 hex, Chr '':'']), rep_range 1 4 hex]) t"
    unfolding t using c firsts_ipv6_full hex_word by (intro no_first) blast
  moreover have "t \<noteq> ''::1''"
    using punct by (auto simp: word_chars_def)
  moreover have "test_full IPV6_PATTERN t \<longleftrightarrow>
      test_full (seq [rep 7 (seq [rep_range 1 4 hex, Chr '':'']), rep_range 1 4 hex]) t
      \<or> t = ''::1'' \<or> t = ''::''"
    by (simp only: IPV6_PATTERN_def alts_def foldr.simps comp_def id_apply test_full_Alt test_full_lit
          test_full_Void simp_thms)
  ultimately have ipv6: "\<not> test_full IPV6_PATTERN t"
    using colons by simp
  have mac: "\<not> test_full MAC_ADDRESS_PATTERN t"
    unfolding t using c firsts_mac hex_word by (intro no_first) blast
  have date: "\<not> list_ex (\<lambda>pattern. test_full pattern t) DATE_PATTERNS"
    unfolding t using c firsts_date [of c] no_first [of _ c w]
    unfolding list_ex_iff by blast
  have "\<not> list_all (\<lambda>c. c \<in> set alpha_chars) t"
    using c alpha_word by (auto simp: t)
  then have alpha: "\<not> test_full ALPHABETIC t"
    by (simp only: alphabetic_iff simp_thms)
  have "\<not> has_ascii_alnum t"
    using punct by (auto simp: has_ascii_alnum_def list_ex_iff list_all_iff word_chars_def)
  then have alnum: "\<not> test_anywhere ALPHANUMERIC t" by (simp add: alphanumeric_iff)
  have "list_all (\<lambda>c. c \<notin> set (word_chars @ white_space @ ''-_.'')) t"
    using punct ws by (auto simp: list_all_iff ws_free_def is_space_def word_chars_def)
  then have p: "test_full PUNCTUATION t" using ne by (simp add: punctuation_iff)
  show ?thesis
    using ipv4 ipv6 mac date alpha alnum p vocab
    by (simp add: keep_token_cases [OF ws_free_trim [OF ws] ne] is_ip_token_def
          is_mac_token_def is_date_token_def manufacturer_iff)
qed

text \<open>
  C6, as the code has it. A token with no letter, digit, underscore, hyphen or dot, other
  than \<open>::\<close>, that is neither contained in nor contains a vocabulary entry, is dropped
  from the cleaned output and recorded in \<open>removedElements\<close> with reason \<open>Punctuation\<close>.
\<close>

theorem punctuation_removed:
  assumes "t \<in> set (tokens_of input)"
    and "list_all (\<lambda>c. c \<notin> set (word_chars @ ''-.'')) t"
    and "t \<noteq> ''::''"
    and "\<not> within_vocabulary names t" and "\<not> contains_vocabulary names t"
  shows "''Punctuation: '' @ t \<in> set (removedElements (cleanModelData input names)) \<and>
         t \<notin> set (tokens_of (cleaned (cleanModelData input names)))"
proof -
  from assms(1) tokens_ok [of input] have ok: "ws_free t" "t \<noteq> []"
    by (auto simp: list_all_iff)
  have kt: "keep_token names [] t = (False, [''Punctuation: '' @ t])"
    using punctuation_token [OF ok assms(2-5), of "[]"] by simp
  have "list_all (\<lambda>t. ws_free t \<and> t \<noteq> [])
          (filter (\<lambda>t. fst (keep_token names [] t)) (tokens_of input))"
    using tokens_ok [of input] by (simp add: list_all_iff)
  then have "tokens_of (cleaned (cleanModelData input names)) =
               filter (\<lambda>t. fst (keep_token names [] t)) (tokens_of input)"
    by (simp add: clean_explicit tokens_of_join(2))
  then have "t \<notin> set (tokens_of (cleaned (cleanModelData input names)))"
    using kt by simp
  moreover have "''Punctuation: '' @ t \<in> set (removedElements (cleanModelData input names))"
    using assms(1) kt by (force simp: clean_explicit)
  ultimately show ?thesis by simp
qed

theorem punctuation_removed_witness:
  "''Punctuation: &%'' \<in> set (removedElements (cleanModelData ''AXS-4000 &% Q6075'' [''Axis''])) \<and>
   ''&%'' \<notin> set (tokens_of (cleaned (cleanModelData ''AXS-4000 &% Q6075'' [''Axis''])))"
proof -
  have h1: "''&%'' \<in> set (tokens_of ''AXS-4000 &% Q6075'')" by code_simp
  have h2: "list_all (\<lambda>c. c \<notin> set (word_chars @ ''-.'')) ''&%''" by code_simp
  have h3: "''&%'' \<noteq> ''::''" by simp
  have h4: "\<not> within_vocabulary [''Axis''] ''&%''" by code_simp
  have h5: "\<not> contains_vocabulary [''Axis''] ''&%''" by code_simp
  show ?thesis using punctuation_removed [OF h1 h2 h3 h4 h5] by simp
qed

text \<open>
  The hyphen is a token without letters or digits, and it is kept: the pattern of the
  last test excludes hyphen, underscore and dot. The token \<open>::\<close> is removed by the first
  test, with reason \<open>IP\<close>.
\<close>

theorem punctuation_counterexample:
  "tokens_of ''AXS - 4000 ::'' = [''AXS'', ''-'', ''4000'', ''::''] \<and>
   pure_punctuation ''-'' \<and> pure_punctuation ''::'' \<and>
   cleanModelData ''AXS - 4000 ::'' [''Axis''] =
     \<lparr>original = ''AXS - 4000 ::'', cleaned = ''AXS - 4000'', removedElements = [''IP: ::'']\<rparr>"
  by code_simp

section \<open>The aggregator conserves counts\<close>

text \<open>
  Rounding to a double leaves an integer of absolute value up to \<open>2 ^ 53\<close> as it is, and
  every double; the sum \<open>2 ^ 53 + 1\<close> lies halfway between two doubles and is rounded to
  the even one, and so is the sum of the doubles next to \<open>0.1\<close> and \<open>0.2\<close>.
\<close>

lemma round_half_even_int: "round_half_even (of_int n) = n"
  by (simp add: round_half_even_def)

lemma find_upto_Some:
  "find P [a..b] = Some e \<Longrightarrow> P e \<and> a \<le> e \<and> e \<le> b \<and> (\<forall>x. a \<le> x \<and> x < e \<longrightarrow> \<not> P x)"
proof (induction a b rule: upto.induct)
  case (1 i j)
  show ?case
  proof (cases "i \<le> j")
    case False
    then show ?thesis using 1 by simp
  next
    case True
    then have u: "[i..j] = i # [i + 1..j]" by (simp add: upto_rec1)
    show ?thesis
    proof (cases "P i")
      case True
      then show ?thesis using 1(2) \<open>i \<le> j\<close> u by auto
    next
      case False
      then have "find P [i + 1..j] = Some e" using 1(2) u by simp
      from 1(1) [OF True this] have IH: "P e" "i + 1 \<le> e" "e \<le> j" "\<forall>x. i + 1 \<le> x \<and> x < e \<longrightarrow> \<not> P x"
        by auto
      have "\<not> P x" if "i \<le> x" "x < e" for x
        using that IH(4) False by (cases "x = i") auto
      then show ?thesis using IH by auto
    qed
  qed
qed

lemma find_upto_least:
  assumes "P e" "a \<le> e" "e \<le> b" "\<forall>x. a \<le> x \<and> x < e \<longrightarrow> \<not> P x"
  shows "find P [a..b] = Some e"
proof (cases "find P [a..b]")
  case None
  then show ?thesis using assms by (auto simp: find_None_iff)
next
  case (Some e')
  from find_upto_Some [OF this] assms show ?thesis
    using Some by (metis not_less_iff_gr_or_eq)
qed

lemma find_upto_None:
  "find P [a..b] = None \<Longrightarrow> a \<le> x \<Longrightarrow> x \<le> b \<Longrightarrow> \<not> P x"
  by (auto simp: find_None_iff)

lemma round_double_int:
  assumes "\<bar>k\<bar> \<le> 2 ^ 53"
  shows "round_double (of_int k) = Finite (of_int k)"
proof -
  let ?P = "\<lambda>e. \<bar>rat_of_int k\<bar> < 2 powi (e + 53)"
  have k: "\<bar>rat_of_int k\<bar> \<le> 2 ^ 53"
    using assms by (metis of_int_abs of_int_le_iff of_int_numeral of_int_power)
  have P1: "?P 1" using k by simp
  have "find ?P [-1074..971] \<noteq> None"
  proof
    assume "find ?P [-1074..971] = None"
    from find_upto_None [OF this, of 1] P1 show False by simp
  qed
  then obtain e where e: "find ?P [-1074..971] = Some e" by blast
  from find_upto_Some [OF this]
  have least: "?P e" "-1074 \<le> e" "e \<le> 971" "\<forall>x. -1074 \<le> x \<and> x < e \<longrightarrow> \<not> ?P x" by blast+
  have e1: "e \<le> 1"
  proof (rule ccontr)
    assume "\<not> e \<le> 1"
    then have "- 1074 \<le> (1::int) \<and> 1 < e" by simp
    then show False using least(4) P1 by blast
  qed
  have "\<exists>n. \<bar>rat_of_int k\<bar> / 2 powi e = of_int n"
  proof (cases "e \<le> 0")
    case True
    then have "\<bar>rat_of_int k\<bar> / 2 powi e = of_int (\<bar>k\<bar> * 2 ^ nat (- e))"
      by (simp add: power_int_def field_simps)
    then show ?thesis by blast
  next
    case False
    then have "e = 1" using e1 by simp
    then have "- 1074 \<le> (0::int) \<and> 0 < e" by simp
    then have "\<not> ?P 0" using least(4) by blast
    then have "\<bar>rat_of_int k\<bar> = 2 ^ 53" using k by simp
    then have "\<bar>rat_of_int k\<bar> / 2 powi e = of_int (2 ^ 52)" using \<open>e = 1\<close> by simp
    then show ?thesis by blast
  qed
  then obtain n where n: "\<bar>rat_of_int k\<bar> / 2 powi e = of_int n" by blast
  then have scaled: "rat_of_int n * 2 powi e = \<bar>rat_of_int k\<bar>"
    by (simp add: field_simps)
  have "sgn (rat_of_int k) * rat_of_int n * 2 powi e = rat_of_int k"
    using scaled by (simp add: mult.assoc sgn_mult_abs)
  then show ?thesis
    unfolding round_double_def e using e1 by (simp add: n round_half_even_int)
qed

lemma round_double_example:
  "round_double 9007199254740993 = Finite 9007199254740992"
proof -
  have e: "find (\<lambda>e. \<bar>9007199254740993 :: rat\<bar> < 2 powi (e + 53)) [-1074..971] = Some 1"
  proof (rule find_upto_least)
    show "\<forall>x. - 1074 \<le> x \<and> x < 1 \<longrightarrow> \<not> \<bar>9007199254740993 :: rat\<bar> < 2 powi (x + 53)"
    proof (intro allI impI)
      fix x :: int assume "- 1074 \<le> x \<and> x < 1"
      then have "(2::rat) powi (x + 53) \<le> 2 powi 53"
        by (intro power_int_increasing) auto
      then show "\<not> \<bar>9007199254740993 :: rat\<bar> < 2 powi (x + 53)" by simp
    qed
  qed simp_all
  have "\<lfloor>9007199254740993 / 2 :: rat\<rfloor> = 4503599627370496"
    by (rule floor_unique) simp_all
  then have "round_half_even (\<bar>9007199254740993\<bar> / 2 powi 1) = 4503599627370496"
    by (simp add: round_half_even_def Let_def)
  then show ?thesis unfolding round_double_def e by simp
qed


lemma round_double_fixed:
  assumes m: "\<bar>m\<bar> < 2 ^ 53" and e: "- 1074 \<le> e" "e \<le> 971"
  shows "round_double (of_int m * 2 powi e) = Finite (of_int m * 2 powi e)"
proof -
  let ?q = "rat_of_int m * 2 powi e"
  let ?P = "\<lambda>x. \<bar>?q\<bar> < 2 powi (x + 53)"
  have absq: "\<bar>?q\<bar> = rat_of_int \<bar>m\<bar> * 2 powi e"
    by (simp add: abs_mult)
  have "rat_of_int \<bar>m\<bar> < 2 ^ 53"
    using m by (metis of_int_less_iff of_int_numeral of_int_power)
  then have Pe: "?P e"
    unfolding absq by (simp add: power_int_add)
  have "find ?P [-1074..971] \<noteq> None"
  proof
    assume "find ?P [-1074..971] = None"
    from find_upto_None [OF this, of e] Pe e show False by simp
  qed
  then obtain x where x: "find ?P [-1074..971] = Some x" by blast
  from find_upto_Some [OF this]
  have least: "?P x" "-1074 \<le> x" "x \<le> 971" "\<forall>y. -1074 \<le> y \<and> y < x \<longrightarrow> \<not> ?P y" by blast+
  have xe: "x \<le> e"
  proof (rule ccontr)
    assume "\<not> x \<le> e"
    then have "- 1074 \<le> e \<and> e < x" using e by simp
    then show False using least(4) Pe by blast
  qed
  define n where "n = \<bar>m\<bar> * 2 ^ nat (e - x)"
  have "(2::rat) powi e = 2 powi (e - x) * 2 powi x"
    by (simp flip: power_int_add)
  also have "(2::rat) powi (e - x) = 2 ^ nat (e - x)"
    using xe by (simp add: power_int_def)
  finally have split: "(2::rat) powi e = 2 ^ nat (e - x) * 2 powi x" .
  have absq': "\<bar>?q\<bar> = rat_of_int n * 2 powi x"
    using absq split by (simp add: n_def)
  have quot: "\<bar>?q\<bar> / 2 powi x = rat_of_int n"
    unfolding absq' by simp
  have scaled: "rat_of_int n * 2 powi x = \<bar>?q\<bar>"
    unfolding absq' by simp
  have signed: "sgn ?q * rat_of_int n * 2 powi x = ?q"
    using scaled by (simp only: mult.assoc sgn_mult_abs)
  have "rat_of_int n < 2 ^ 53" if "x = 971"
  proof -
    have "e = x" using that xe e by simp
    then show ?thesis using \<open>rat_of_int \<bar>m\<bar> < 2 ^ 53\<close> by (simp add: n_def)
  qed
  then have "\<not> (x = 971 \<and> n = 2 ^ 53)" by auto
  then show ?thesis
    unfolding round_double_def x using signed by (simp add: quot round_half_even_int)
qed


lemma round_double_tenth:
  "round_double (3602879701896397 / 36028797018963968) =
     Finite (3602879701896397 / 36028797018963968)"
  using round_double_fixed [of 3602879701896397 "- 55"] by simp

lemma round_double_three_tenths:
  "round_double (10808639105689191 / 36028797018963968) =
     Finite (1351079888211149 / 4503599627370496)"
proof -
  let ?q = "10808639105689191 / 36028797018963968 :: rat"
  have e: "find (\<lambda>e. \<bar>?q\<bar> < 2 powi (e + 53)) [-1074..971] = Some (- 54)"
  proof (rule find_upto_least)
    show "\<forall>x. - 1074 \<le> x \<and> x < - 54 \<longrightarrow> \<not> \<bar>?q\<bar> < 2 powi (x + 53)"
    proof (intro allI impI)
      fix x :: int assume "- 1074 \<le> x \<and> x < - 54"
      then have "(2::rat) powi (x + 53) \<le> 2 powi (- 2)"
        by (intro power_int_increasing) auto
      then show "\<not> \<bar>?q\<bar> < 2 powi (x + 53)" by simp
    qed
  qed simp_all
  have "\<lfloor>10808639105689191 / 2 :: rat\<rfloor> = 5404319552844595"
    by (rule floor_unique) simp_all
  then have "round_half_even (\<bar>?q\<bar> / 2 powi (- 54)) = 5404319552844596"
    by (simp add: round_half_even_def Let_def)
  then show ?thesis unfolding round_double_def e by simp
qed

text \<open>
  While the sums stay within \<open>2 ^ 53\<close> the \<open>Map\<close> holds integers: a counted row moves
  its label from the integer it held to the exact sum, and a row without a model cell
  leaves the \<open>Map\<close> as it is.
\<close>

lemma map_of_lift: "map_of (lift al) label = map_option (\<lambda>k. Finite (of_int k)) (map_of al label)"
  by (induction al) (auto simp: lift_def)

lemma or_zero_lift: "or_zero (map_of (lift al) label) = Finite (of_int (count_of (map_of al label)))"
  by (cases "map_of al label") (simp_all add: map_of_lift or_zero_def count_of_def)

lemma update_lift:
  "AList.update label (Finite (of_int k)) (lift al) = lift (AList.update label k al)"
  by (induction al) (auto simp: lift_def)

lemma fst_lift: "map fst (lift al) = map fst al"
  by (induction al) (auto simp: lift_def)

lemma sum_update_int:
  "distinct (map fst al) \<Longrightarrow>
   sum_list (map snd (AList.update label k al)) =
     sum_list (map snd al) - count_of (map_of al label) + (k :: int)"
proof (induction al)
  case Nil
  show ?case by (simp add: count_of_def)
next
  case (Cons p al)
  then show ?case by (cases p) (auto simp: count_of_def)
qed

lemma abs_update_int:
  "distinct (map fst al) \<Longrightarrow>
   sum_list (map (\<lambda>p. \<bar>snd p\<bar>) (AList.update label k al)) =
     sum_list (map (\<lambda>p. \<bar>snd p\<bar>) al) - \<bar>count_of (map_of al label)\<bar> + \<bar>k :: int\<bar>"
proof (induction al)
  case Nil
  show ?case by (simp add: count_of_def)
next
  case (Cons p al)
  then show ?case by (cases p) (auto simp: count_of_def)
qed

lemma abs_count_le:
  "distinct (map fst al) \<Longrightarrow> \<bar>count_of (map_of al label)\<bar> \<le> sum_list (map (\<lambda>p. \<bar>snd p :: int\<bar>) al)"
proof (induction al)
  case Nil
  show ?case by (simp add: count_of_def)
next
  case (Cons p al)
  then show ?case by (cases p) (auto simp: count_of_def)
qed


lemma aggregate_row_skip:
  "\<not> has_model mi row \<Longrightarrow> aggregate_row pf mi ci agg row = agg"
  by (auto simp: aggregate_row_def has_model_def split: option.splits)

lemma aggregate_row_increment:
  assumes "cell row mi = Some model" and "model \<noteq> []"
  shows "aggregate_row pf mi ci agg row =
           AList.update model (plus_number (or_zero (map_of agg model)) (increment pf ci row)) agg"
  using assms by (simp add: aggregate_row_def increment_def Let_def)

lemma integral_int_of: "integral x \<Longrightarrow> x = Finite (of_int (int_of x))"
  by (cases x) (auto simp: integral_def int_of_def)

lemma integral_lift: "list_all (\<lambda>(label, count). integral count) (lift al)"
  by (induction al) (auto simp: lift_def integral_def)

lemma int_of_lift: "map (\<lambda>(label, count). int_of count) (lift al) = map snd al"
  by (induction al) (auto simp: lift_def int_of_def)

lemma aggregate_row_exact:
  assumes model: "cell row mi = Some model" "model \<noteq> []"
    and inc: "integral (increment pf ci row)"
    and dist: "distinct (map fst al)"
    and bound: "sum_list (map (\<lambda>p. \<bar>snd p\<bar>) al) + \<bar>int_of (increment pf ci row)\<bar> \<le> 2 ^ 53"
  shows "aggregate_row pf mi ci (lift al) row =
           lift (AList.update model (count_of (map_of al model) + int_of (increment pf ci row)) al)"
proof -
  let ?old = "count_of (map_of al model)"
  let ?v = "int_of (increment pf ci row)"
  have "\<bar>?old + ?v\<bar> \<le> 2 ^ 53"
    using abs_count_le [OF dist, of model] bound by linarith
  then have "round_double (of_int (?old + ?v)) = Finite (of_int (?old + ?v))"
    by (rule round_double_int)
  then have "plus_number (Finite (of_int ?old)) (Finite (of_int ?v)) = Finite (of_int (?old + ?v))"
    by simp
  then have "plus_number (or_zero (map_of (lift al) model)) (increment pf ci row) =
               Finite (of_int (?old + ?v))"
    using integral_int_of [OF inc] by (simp add: or_zero_lift)
  then show ?thesis
    unfolding aggregate_row_increment [OF model] by (simp only: update_lift)
qed

lemma aggregate_fold:
  "list_all (\<lambda>row. integral (increment pf ci row)) (filter (has_model mi) rows) \<Longrightarrow>
         distinct (map fst al) \<Longrightarrow>
         sum_list (map (\<lambda>p. \<bar>snd p\<bar>) al)
           + sum_list (map (\<lambda>row. \<bar>int_of (increment pf ci row)\<bar>) (filter (has_model mi) rows))
           \<le> 2 ^ 53 \<Longrightarrow>
         \<exists>al'. foldl (aggregate_row pf mi ci) (lift al) rows = lift al' \<and>
               distinct (map fst al') \<and>
               sum_list (map snd al') =
                 sum_list (map snd al)
                   + sum_list (map (\<lambda>row. int_of (increment pf ci row)) (filter (has_model mi) rows))"
proof (induction rows arbitrary: al)
  case Nil
  then show ?case by auto
next
  case (Cons row rows)
  show ?case
  proof (cases "has_model mi row")
    case False
    then show ?thesis using Cons by (simp add: aggregate_row_skip)
  next
    case True
    then obtain model where model: "cell row mi = Some model" "model \<noteq> []"
      by (auto simp: has_model_def split: option.splits)
    let ?v = "int_of (increment pf ci row)"
    let ?al1 = "AList.update model (count_of (map_of al model) + ?v) al"
    have inc: "integral (increment pf ci row)" using Cons.prems(1) True by simp
    have b: "sum_list (map (\<lambda>p. \<bar>snd p\<bar>) al) + \<bar>?v\<bar> \<le> 2 ^ 53"
    proof -
      have "0 \<le> sum_list (map (\<lambda>row. \<bar>int_of (increment pf ci row)\<bar>) (filter (has_model mi) rows))"
        by (rule sum_list_nonneg) auto
      then show ?thesis using Cons.prems(3) True by simp
    qed
    have step: "aggregate_row pf mi ci (lift al) row = lift ?al1"
      by (rule aggregate_row_exact [OF model inc Cons.prems(2) b])
    have d1: "distinct (map fst ?al1)" using Cons.prems(2) by (simp add: distinct_update)
    have "sum_list (map (\<lambda>p. \<bar>snd p\<bar>) ?al1) \<le> sum_list (map (\<lambda>p. \<bar>snd p\<bar>) al) + \<bar>?v\<bar>"
      unfolding abs_update_int [OF Cons.prems(2)] by linarith
    then have b1: "sum_list (map (\<lambda>p. \<bar>snd p\<bar>) ?al1)
             + sum_list (map (\<lambda>row. \<bar>int_of (increment pf ci row)\<bar>) (filter (has_model mi) rows))
             \<le> 2 ^ 53"
      using Cons.prems(3) True by simp
    have rest: "list_all (\<lambda>row. integral (increment pf ci row)) (filter (has_model mi) rows)"
      using Cons.prems(1) True by simp
    obtain al' where al': "foldl (aggregate_row pf mi ci) (lift ?al1) rows = lift al'"
        "distinct (map fst al')"
        "sum_list (map snd al') =
           sum_list (map snd ?al1)
             + sum_list (map (\<lambda>row. int_of (increment pf ci row)) (filter (has_model mi) rows))"
      using Cons.IH [OF rest d1 b1] by blast
    have "sum_list (map snd ?al1) = sum_list (map snd al) + ?v"
      unfolding sum_update_int [OF Cons.prems(2)] by simp
    with al' step True show ?thesis by auto
  qed
qed


text \<open>
  The count column has an index from 0 on exactly when it is selected, has a name and is
  among the headers; otherwise its index is \<open>-1\<close> and every counted row adds 1.
\<close>

lemma index_from_notin: "name \<notin> set hs \<Longrightarrow> index_from k hs name = - 1"
  by (induction hs arbitrary: k) auto

lemma index_from_in: "name \<in> set hs \<Longrightarrow> k \<le> index_from k hs name"
proof (induction hs arbitrary: k)
  case Nil
  then show ?case by simp
next
  case (Cons h hs)
  show ?case
  proof (cases "h = name")
    case True
    then show ?thesis by simp
  next
    case False
    then have "k + 1 \<le> index_from (k + 1) hs name" using Cons by simp
    then show ?thesis using False by simp
  qed
qed

lemma countColumnIndex_selected:
  assumes "count_selected headers selection"
  shows "countColumn selection \<noteq> None \<and> countColumn selection \<noteq> Some [] \<and>
         0 \<le> indexOf headers (countColumn selection)"
  using assms index_from_in [of _ headers 0]
  by (auto simp: count_selected_def indexOf_def split: option.splits)

lemma countColumnIndex_not_selected:
  assumes "\<not> count_selected headers selection"
  shows "(if countColumn selection \<noteq> None \<and> countColumn selection \<noteq> Some []
          then indexOf headers (countColumn selection) else - 1) = - 1"
  using assms index_from_notin [of _ headers 0]
  by (auto simp: count_selected_def indexOf_def split: option.splits)

lemma increment_selected:
  "0 \<le> indexOf headers (countColumn selection) \<Longrightarrow>
   increment pf (indexOf headers (countColumn selection)) row = parsed_count pf headers selection row"
  by (simp add: increment_def parsed_count_def)

lemma increment_one: "increment pf (- 1) row = Finite 1"
  by (simp add: increment_def)

lemma integral_one: "integral (Finite 1)" "int_of (Finite 1) = 1"
  by (simp_all add: integral_def int_of_def)

lemma sum_list_ones: "sum_list (map (\<lambda>x. 1 :: int) xs) = int (length xs)"
  by (induction xs) simp_all

lemma aggregatedData_fold:
  "aggregatedData pf headers rows selection =
     foldl (aggregate_row pf (indexOf headers (modelColumn selection))
              (if count_selected headers selection
               then indexOf headers (countColumn selection) else - 1))
       (lift []) rows"
proof (cases "count_selected headers selection")
  case True
  then show ?thesis
    using countColumnIndex_selected [OF True] by (simp add: aggregatedData_def lift_def)
next
  case False
  then show ?thesis
    using countColumnIndex_not_selected [OF False]
    by (simp only: aggregatedData_def Let_def lift_def list.map if_False)
qed

lemma round_double_numeral:
  "(numeral n :: int) \<le> 2 ^ 53 \<Longrightarrow> round_double (numeral n) = Finite (numeral n)"
  using round_double_int [of "numeral n"] by simp

lemma round_double_one: "round_double 1 = Finite 1"
  using round_double_int [of 1] by simp

lemmas aggregator_defs =
  aggregatedData_def aggregate_row_def indexOf_def cell_def or_zero_def counted_rows_def
  has_model_def count_selected_def parsed_count_def integral_def int_of_def

text \<open>
  The aggregator adds in doubles: \<open>0.1 + 0.2\<close> is \<open>0.30000000000000004\<close>, and the two
  infinities add up to \<open>NaN\<close>, which the next row of the label reads as 0.
\<close>

lemma doubles_example:
  "let parseFloat = (\<lambda>c. case map_of
                            [(''0.1'', Finite (3602879701896397 / 36028797018963968)),
                             (''0.2'', Finite (3602879701896397 / 18014398509481984)),
                             (''Infinity'', PosInfinity), (''-Infinity'', NegInfinity),
                             (''1'', Finite 1)] c of
                          None \<Rightarrow> NaN | Some v \<Rightarrow> v);
       headers = [''Model'', ''Count''];
       selection = \<lparr>modelColumn = Some ''Model'', countColumn = Some ''Count''\<rparr>
   in aggregatedData parseFloat headers [[''A'', ''0.1''], [''A'', ''0.2'']] selection =
        [(''A'', Finite (1351079888211149 / 4503599627370496))] \<and>
      aggregatedData parseFloat headers
        [[''A'', ''Infinity''], [''A'', ''-Infinity''], [''A'', ''1'']] selection =
        [(''A'', Finite 1)]"
  unfolding Let_def
  by (simp add: aggregator_defs round_double_tenth round_double_three_tenths round_double_one)

text \<open>
  C8, as the code has it. The counted rows are the rows whose model cell is present and
  not empty. When no count column is selected, or the selected one has the empty name or
  is not among the headers, and there are at most \<open>2 ^ 53\<close> counted rows, the counts of
  the aggregated labels are integers and sum to the number of counted rows. When a count
  column with a name among the headers is selected, the parsed count cell of every
  counted row (0 for a cell that is missing or unparseable) is an integer, and the
  absolute values of these integers sum to at most \<open>2 ^ 53\<close>, the counts of the
  aggregated labels are integers and sum to the sum of the parsed count cells of the
  counted rows. In both cases every label occurs once.
  The record of a label in \<open>results\<close> carries the count of its entry in the \<open>Map\<close>.
\<close>

theorem count_conservation:
  assumes "if count_selected headers selection
           then list_all (\<lambda>row. integral (parsed_count parseFloat headers selection row))
                  (counted_rows headers selection rows) \<and>
                sum_list (map (\<lambda>row. \<bar>int_of (parsed_count parseFloat headers selection row)\<bar>)
                  (counted_rows headers selection rows)) \<le> 2 ^ 53
           else int (length (counted_rows headers selection rows)) \<le> 2 ^ 53"
  shows "distinct (map fst (aggregatedData parseFloat headers rows selection)) \<and>
         list_all (\<lambda>(label, count). integral count)
           (aggregatedData parseFloat headers rows selection) \<and>
         sum_list (map (\<lambda>(label, count). int_of count)
           (aggregatedData parseFloat headers rows selection)) =
           (if count_selected headers selection
            then sum_list (map (\<lambda>row. int_of (parsed_count parseFloat headers selection row))
                   (counted_rows headers selection rows))
            else int (length (counted_rows headers selection rows)))"
proof -
  let ?mi = "indexOf headers (modelColumn selection)"
  let ?ci = "if count_selected headers selection
             then indexOf headers (countColumn selection) else - 1"
  let ?counted = "filter (has_model ?mi) rows"
  have inc: "increment parseFloat ?ci row =
               (if count_selected headers selection
                then parsed_count parseFloat headers selection row else Finite 1)" for row
    using countColumnIndex_selected [of headers selection]
    by (simp add: increment_selected increment_one)
  have ints: "list_all (\<lambda>row. integral (increment parseFloat ?ci row)) ?counted"
    using assms unfolding inc counted_rows_def
    by (simp add: integral_one list_all_iff split: if_splits)
  have bound: "sum_list (map (\<lambda>p. \<bar>snd p\<bar>) ([] :: (string \<times> int) list))
                 + sum_list (map (\<lambda>row. \<bar>int_of (increment parseFloat ?ci row)\<bar>) ?counted)
               \<le> 2 ^ 53"
    using assms unfolding inc counted_rows_def
    by (simp add: integral_one sum_list_ones split: if_splits)
  obtain al where al: "aggregatedData parseFloat headers rows selection = lift al"
      "distinct (map fst al)"
      "sum_list (map snd al) =
         sum_list (map (\<lambda>row. int_of (increment parseFloat ?ci row)) ?counted)"
    using aggregate_fold [OF ints _ bound] unfolding aggregatedData_fold by auto
  have "sum_list (map (\<lambda>row. int_of (increment parseFloat ?ci row)) ?counted) =
          (if count_selected headers selection
           then sum_list (map (\<lambda>row. int_of (parsed_count parseFloat headers selection row))
                  (counted_rows headers selection rows))
           else int (length (counted_rows headers selection rows)))"
    unfolding inc counted_rows_def by (simp add: integral_one sum_list_ones)
  then show ?thesis
    unfolding al(1) using al(2,3) by (simp add: fst_lift integral_lift int_of_lift)
qed

theorem count_conservation_witness:
  "let parseFloat = (\<lambda>c. case map_of [(''3'', Finite 3), (''2'', Finite 2), (''1'', Finite 1)] c of
                          None \<Rightarrow> NaN | Some v \<Rightarrow> v);
       headers = [''Model'', ''Count''];
       rows = [[''CamA'', ''3''], [''CamA'', ''2''], [''CamB'', ''1''], [''CamB'', ''n/a'']];
       selection = \<lparr>modelColumn = Some ''Model'', countColumn = Some ''Count''\<rparr>;
       unselected = \<lparr>modelColumn = Some ''Model'', countColumn = None\<rparr>
   in count_selected headers selection \<and>
      list_all (\<lambda>row. integral (parsed_count parseFloat headers selection row))
        (counted_rows headers selection rows) \<and>
      sum_list (map (\<lambda>row. \<bar>int_of (parsed_count parseFloat headers selection row)\<bar>)
        (counted_rows headers selection rows)) \<le> 2 ^ 53 \<and>
      distinct (map fst (aggregatedData parseFloat headers rows selection)) \<and>
      list_all (\<lambda>(label, count). integral count)
        (aggregatedData parseFloat headers rows selection) \<and>
      sum_list (map (\<lambda>(label, count). int_of count)
        (aggregatedData parseFloat headers rows selection)) = 6 \<and>
      \<not> count_selected headers unselected \<and>
      int (length (counted_rows headers unselected rows)) \<le> 2 ^ 53 \<and>
      sum_list (map (\<lambda>(label, count). int_of count)
        (aggregatedData parseFloat headers rows unselected)) = 4"
proof -
  let ?pf = "\<lambda>c. case map_of [(''3'', Finite 3), (''2'', Finite 2), (''1'', Finite 1)] c of
                  None \<Rightarrow> NaN | Some v \<Rightarrow> v"
  let ?headers = "[''Model'', ''Count'']"
  let ?rows = "[[''CamA'', ''3''], [''CamA'', ''2''], [''CamB'', ''1''], [''CamB'', ''n/a'']]"
  let ?selection = "\<lparr>modelColumn = Some ''Model'', countColumn = Some ''Count''\<rparr>"
  let ?unselected = "\<lparr>modelColumn = Some ''Model'', countColumn = None\<rparr>"
  have sel: "count_selected ?headers ?selection" "\<not> count_selected ?headers ?unselected"
    by (simp_all add: count_selected_def)
  have ints: "list_all (\<lambda>row. integral (parsed_count ?pf ?headers ?selection row))
                (counted_rows ?headers ?selection ?rows)"
    by (simp add: aggregator_defs)
  have total: "sum_list (map (\<lambda>row. int_of (parsed_count ?pf ?headers ?selection row))
                 (counted_rows ?headers ?selection ?rows)) = 6"
    by (simp add: aggregator_defs)
  have bound: "sum_list (map (\<lambda>row. \<bar>int_of (parsed_count ?pf ?headers ?selection row)\<bar>)
                 (counted_rows ?headers ?selection ?rows)) \<le> 2 ^ 53"
    by (simp add: aggregator_defs)
  have len: "int (length (counted_rows ?headers ?unselected ?rows)) = 4"
    by (simp add: aggregator_defs)
  show ?thesis
    unfolding Let_def
    using count_conservation [of ?headers ?selection ?pf ?rows]
      count_conservation [of ?headers ?unselected ?pf ?rows] sel ints total bound len
    by simp
qed

text \<open>
  A row with a count and no model cell is skipped, so its count is in no label: the
  labels sum to 3 and the parsed count cells of the rows to 8. And a sum above
  \<open>2 ^ 53\<close> is rounded: \<open>9007199254740992 + 1\<close> is \<open>9007199254740992\<close> in doubles, so the
  label \<open>CamA\<close> counts one less than its two rows together.
\<close>

theorem count_conservation_counterexample:
  "let parseFloat = (\<lambda>c. case map_of [(''5'', Finite 5), (''3'', Finite 3), (''1'', Finite 1),
                            (''9007199254740992'', Finite 9007199254740992)] c of
                          None \<Rightarrow> NaN | Some v \<Rightarrow> v);
       headers = [''Model'', ''Count''];
       selection = \<lparr>modelColumn = Some ''Model'', countColumn = Some ''Count''\<rparr>;
       rows = [[[], ''5''], [''CamA'', ''3'']];
       large = [[''CamA'', ''9007199254740992''], [''CamA'', ''1'']]
   in aggregatedData parseFloat headers rows selection = [(''CamA'', Finite 3)] \<and>
      sum_list (map (\<lambda>row. int_of (parsed_count parseFloat headers selection row)) rows) = 8 \<and>
      aggregatedData parseFloat headers large selection =
        [(''CamA'', Finite 9007199254740992)] \<and>
      sum_list (map (\<lambda>row. int_of (parsed_count parseFloat headers selection row)) large) =
        9007199254740993"
  unfolding Let_def
  by (simp add: aggregator_defs round_double_numeral round_double_example)

section \<open>Addresses\<close>

text \<open>
  The addresses the patterns recognise are removed with reason \<open>IP\<close>: four octets joined
  by dots, eight groups joined by colons, \<open>::1\<close> and \<open>::\<close>.
\<close>

lemma chr_cons: "c \<in> set cs \<Longrightarrow> rx_match s v \<Longrightarrow> rx_match (Cat (Chr cs) s) (c # v)"
  using m_cat [OF m_chr, of c cs s v] by simp

lemma opt_skip: "rx_match s v \<Longrightarrow> rx_match (Cat (opt r) s) v"
  using m_cat [OF m_altr [OF m_eps], of s v r] by (simp add: opt_def)

lemma opt_chr_cons:
  "c \<in> set cs \<Longrightarrow> rx_match s v \<Longrightarrow> rx_match (Cat (opt (Chr cs)) s) (c # v)"
  using m_cat [OF m_altl [OF m_chr], of c cs s v Eps] by (simp add: opt_def)

lemma octet_alt1: "z \<in> set ''012345'' \<Longrightarrow> rx_match octet [CHR ''2'', CHR ''5'', z]"
proof -
  assume z: "z \<in> set ''012345''"
  have "test_full (lit ''25'') ''25''" by (simp only: test_full_lit)
  then have "rx_match (lit ''25'') ''25''" by (simp only: test_full_iff)
  then have "rx_match (seq [lit ''25'', Chr ''012345'']) (''25'' @ [z])"
    unfolding seq_def foldr.simps comp_def id_apply
    by (rule m_cat) (rule chr_cons [OF z m_eps])
  then show ?thesis by (simp add: octet_def alts_def m_altl)
qed

lemma octet_alt2:
  "y \<in> set ''01234'' \<Longrightarrow> z \<in> set ''0123456789'' \<Longrightarrow> rx_match octet [CHR ''2'', y, z]"
  by (simp add: octet_def alts_def seq_def digit_def)
     (intro m_altr [OF m_altl] chr_cons m_eps, simp_all)

lemma octet_alt3_3:
  "x \<in> set ''01'' \<Longrightarrow> y \<in> set ''0123456789'' \<Longrightarrow> z \<in> set ''0123456789'' \<Longrightarrow>
     rx_match octet [x, y, z]"
  by (simp add: octet_def alts_def seq_def digit_def)
     (intro m_altr [OF m_altr [OF m_altl]] opt_chr_cons chr_cons m_eps, simp_all)


lemma octet_alt3_1: "x \<in> set ''0123456789'' \<Longrightarrow> rx_match octet [x]"
  by (simp add: octet_def alts_def seq_def digit_def)
     (intro m_altr [OF m_altr [OF m_altl]] opt_skip chr_cons m_eps, simp_all)

lemma octet_alt3_2:
  "x \<in> set ''0123456789'' \<Longrightarrow> y \<in> set ''0123456789'' \<Longrightarrow> rx_match octet [x, y]"
  by (simp add: octet_def alts_def seq_def digit_def)
     (intro m_altr [OF m_altr [OF m_altl]] opt_skip opt_chr_cons chr_cons m_eps, simp_all)

lemma digit_cases:
  assumes "x \<in> set ''0123456789''"
  obtains "x \<in> set ''01''" | "x = CHR ''2''" | "3 \<le> digit_value x"
  using assms by (auto simp: digit_value_def)

lemma digit_cases_5:
  assumes "y \<in> set ''0123456789''"
  obtains "y \<in> set ''01234''" | "y = CHR ''5''" | "6 \<le> digit_value y"
  using assms by (auto simp: digit_value_def)

lemma digit_cases_6:
  assumes "z \<in> set ''0123456789''"
  obtains "z \<in> set ''012345''" | "6 \<le> digit_value z"
  using assms by (auto simp: digit_value_def)

lemma octet_3:
  assumes x: "x \<in> set ''0123456789''" and y: "y \<in> set ''0123456789''"
    and z: "z \<in> set ''0123456789''"
    and v: "100 * digit_value x + 10 * digit_value y + digit_value z \<le> 255"
  shows "rx_match octet [x, y, z]"
  using x
proof (cases rule: digit_cases)
  case 1
  then show ?thesis using y z by (rule octet_alt3_3)
next
  case 2
  then have two: "digit_value x = 2" by (simp add: digit_value_def)
  from y show ?thesis
  proof (cases rule: digit_cases_5)
    case 1
    then show ?thesis using z unfolding 2 by (rule octet_alt2)
  next
    case 2
    then have five: "digit_value y = 5" by (simp add: digit_value_def)
    from z show ?thesis
    proof (cases rule: digit_cases_6)
      case 1
      then show ?thesis unfolding \<open>x = CHR ''2''\<close> \<open>y = CHR ''5''\<close> by (rule octet_alt1)
    next
      case 2
      with v two five show ?thesis by simp
    qed
  next
    case 3
    with v two show ?thesis by simp
  qed
next
  case 3
  with v show ?thesis by simp
qed

lemma octet_match: "is_octet s \<Longrightarrow> test_full octet s"
proof -
  assume o: "is_octet s"
  then consider x where "s = [x]" | x y where "s = [x, y]" | x y z where "s = [x, y, z]"
    unfolding is_octet_def
    by (cases s; cases "tl s"; cases "tl (tl s)"; cases "tl (tl (tl s))") auto
  then have "rx_match octet s"
  proof cases
    case 1
    with o show ?thesis by (simp add: is_octet_def octet_alt3_1)
  next
    case 2
    with o show ?thesis by (simp add: is_octet_def octet_alt3_2)
  next
    case 3
    with o have "x \<in> set ''0123456789''" "y \<in> set ''0123456789''" "z \<in> set ''0123456789''"
      "100 * digit_value x + 10 * digit_value y + digit_value z \<le> 255"
      by (simp_all add: is_octet_def decimal_def)
    then show ?thesis unfolding 3 by (rule octet_3)
  qed
  then show ?thesis by (simp only: test_full_iff)
qed


lemma ipv4_match:
  assumes "is_octet a" "is_octet b" "is_octet c" "is_octet d"
  shows "test_full IP_ADDRESS_PATTERN (dotted_quad a b c d)"
proof -
  let ?X = "Cat octet (Cat (Chr ''.'') Eps)"
  have X: "rx_match ?X (s @ ''.'')" if "is_octet s" for s
    using m_cat [OF _ chr_cons [OF _ m_eps], of octet s "CHR ''.''" "''.''"]
      octet_match [OF that] by (simp add: test_full_iff)
  have "rx_match (Cat ?X (Cat ?X (Cat ?X Eps))) ((a @ ''.'') @ (b @ ''.'') @ (c @ ''.'') @ [])"
    by (intro m_cat X assms m_eps)
  moreover have "rx_match (Cat octet Eps) (d @ [])"
    using octet_match [OF assms(4)] by (intro m_cat m_eps) (simp add: test_full_iff)
  ultimately have
    "rx_match (Cat (Cat ?X (Cat ?X (Cat ?X Eps))) (Cat octet Eps))
       (((a @ ''.'') @ (b @ ''.'') @ (c @ ''.'') @ []) @ (d @ []))"
    by (rule m_cat)
  then show ?thesis
    by (simp add: IP_ADDRESS_PATTERN_def seq_def numeral_eq_Suc dotted_quad_def test_full_iff)
qed

lemma group_match:
  assumes "g \<noteq> []" "length g \<le> 4" "list_all (\<lambda>c. c \<in> set cs) g"
  shows "rx_match (rep_range 1 4 (Chr cs)) g"
proof -
  from assms(1,2) consider x where "g = [x]" | x y where "g = [x, y]"
    | x y z where "g = [x, y, z]" | x y z w where "g = [x, y, z, w]"
    by (cases g; cases "tl g"; cases "tl (tl g)"; cases "tl (tl (tl g))";
        cases "tl (tl (tl (tl g)))") auto
  then have "test_full (rep_range 1 4 (Chr cs)) g"
    using assms(3)
    by cases (simp_all add: rep_range_def opt_def numeral_eq_Suc)
  then show ?thesis by (simp only: test_full_iff)
qed

lemma colon_groups_match:
  assumes "list_all is_group gs" and "length gs = Suc n"
  shows "rx_match (Cat (rep n (seq [rep_range 1 4 hex, Chr '':''])) (Cat (rep_range 1 4 hex) Eps))
           (colon_groups gs)"
  using assms
proof (induction n arbitrary: gs)
  case 0
  then obtain g where gs: "gs = [g]" by (cases gs) auto
  with 0 have "rx_match (rep_range 1 4 hex) g"
    unfolding hex_def by (intro group_match) (simp_all add: is_group_def)
  then have "rx_match (Cat Eps (Cat (rep_range 1 4 hex) Eps)) ([] @ g @ [])"
    by (intro m_cat m_eps)
  then show ?case by (simp add: gs)
next
  case (Suc n)
  then obtain g h hs where gs: "gs = g # h # hs" by (cases gs; cases "tl gs") auto
  with Suc.prems have g: "rx_match (rep_range 1 4 hex) g"
    unfolding hex_def by (intro group_match) (simp_all add: is_group_def)
  have rest: "rx_match (Cat (rep n (seq [rep_range 1 4 hex, Chr '':'']))
                 (Cat (rep_range 1 4 hex) Eps)) (colon_groups (h # hs))"
    using Suc.prems gs by (intro Suc.IH) simp_all
  then obtain u v where uv: "colon_groups (h # hs) = u @ v"
      "rx_match (rep n (seq [rep_range 1 4 hex, Chr '':''])) u"
      "rx_match (Cat (rep_range 1 4 hex) Eps) v"
    unfolding match_Cat_iff [of "rep n _"] by blast
  have "rx_match (seq [rep_range 1 4 hex, Chr '':'']) (g @ '':'')"
    unfolding seq_def foldr.simps comp_def id_apply
    by (intro m_cat g chr_cons m_eps) simp
  then have "rx_match (rep (Suc n) (seq [rep_range 1 4 hex, Chr '':''])) ((g @ '':'') @ u)"
    using uv(2) by (simp only: rep.simps) (rule m_cat)
  then have "rx_match (Cat (rep (Suc n) (seq [rep_range 1 4 hex, Chr '':'']))
                 (Cat (rep_range 1 4 hex) Eps)) (((g @ '':'') @ u) @ v)"
    using uv(3) by (rule m_cat)
  then show ?case using uv(1) by (simp add: gs)
qed

lemma ipv6_full_match:
  assumes "list_all is_group gs" and "length gs = 8"
  shows "test_full IPV6_PATTERN (colon_groups gs)"
proof -
  have "rx_match (Cat (rep 7 (seq [rep_range 1 4 hex, Chr '':''])) (Cat (rep_range 1 4 hex) Eps))
           (colon_groups gs)"
    using assms by (intro colon_groups_match) simp_all
  then show ?thesis
    unfolding test_full_iff
    by (simp only: IPV6_PATTERN_def alts_def seq_def foldr.simps comp_def id_apply) (rule m_altl)
qed


lemma removed_token:
  assumes "t \<in> set (tokens_of input)" and "keep_token names [] t = (False, [e])"
  shows "e \<in> set (removedElements (cleanModelData input names)) \<and>
         t \<notin> set (tokens_of (cleaned (cleanModelData input names)))"
proof -
  have "list_all (\<lambda>t. ws_free t \<and> t \<noteq> [])
          (filter (\<lambda>t. fst (keep_token names [] t)) (tokens_of input))"
    using tokens_ok [of input] by (simp add: list_all_iff)
  then have "tokens_of (cleaned (cleanModelData input names)) =
               filter (\<lambda>t. fst (keep_token names [] t)) (tokens_of input)"
    by (simp add: clean_explicit tokens_of_join(2))
  then have "t \<notin> set (tokens_of (cleaned (cleanModelData input names)))"
    using assms(2) by simp
  moreover have "e \<in> set (removedElements (cleanModelData input names))"
    using assms by (force simp: clean_explicit)
  ultimately show ?thesis by simp
qed

lemma ip_token_removed:
  assumes "t \<in> set (tokens_of input)" and "is_ip_token t"
  shows "''IP: '' @ t \<in> set (removedElements (cleanModelData input names)) \<and>
         t \<notin> set (tokens_of (cleaned (cleanModelData input names)))"
proof -
  from assms(1) tokens_ok [of input] have "trim t = t" "t \<noteq> []"
    by (auto simp: list_all_iff ws_free_trim)
  then have "keep_token names [] t = (False, [''IP: '' @ t])"
    using assms(2) by (simp add: keep_token_cases)
  with assms(1) show ?thesis by (rule removed_token)
qed

lemma recognised_addresses_removed:
  assumes "t \<in> set (tokens_of input)"
    and "(\<exists>a b c d. t = dotted_quad a b c d \<and> is_octet a \<and> is_octet b \<and> is_octet c \<and> is_octet d)
         \<or> (\<exists>gs. t = colon_groups gs \<and> length gs = 8 \<and> list_all is_group gs)
         \<or> t = ''::1'' \<or> t = ''::''"
  shows "''IP: '' @ t \<in> set (removedElements (cleanModelData input names)) \<and>
         t \<notin> set (tokens_of (cleaned (cleanModelData input names)))"
proof -
  have "test_full IPV6_PATTERN ''::1''" "test_full IPV6_PATTERN ''::''"
    by (simp_all only: IPV6_PATTERN_def alts_def foldr.simps comp_def id_apply test_full_Alt
          test_full_lit simp_thms)
  with assms(2) have "is_ip_token t"
    unfolding is_ip_token_def using ipv4_match ipv6_full_match by blast
  with assms(1) show ?thesis by (rule ip_token_removed)
qed

text \<open>
  C5. Every token that is an IPv4 dotted quad or an IPv6 address, in full or compressed
  form, is to be dropped and recorded with reason \<open>IP\<close>. The pattern for IPv6 addresses
  has three alternatives: eight groups of one to four hexadecimal digits, \<open>::1\<close>, and
  \<open>::\<close>. A compressed address such as \<open>fe80::1\<close> matches none of them; it contains a
  letter or digit, and the cleaner keeps it.
\<close>

theorem ipv6_compressed_kept:
  "cleanModelData ''P3245-LVE fe80::1 2001:db8::ff00:42:8329'' [''Axis''] =
     \<lparr>original = ''P3245-LVE fe80::1 2001:db8::ff00:42:8329'',
      cleaned = ''P3245-LVE fe80::1 2001:db8::ff00:42:8329'',
      removedElements = []\<rparr>"
  by code_simp

end
